theory Spec2Isabelle
  imports Complex_Main "HOL-Library.Sublist" "HOL-Library.Word"
begin

unbundle bit_operations_syntax

section \<open>Python strings\<close>

text \<open>
  A Python \<open>str\<close> is modelled as a \<open>string\<close> whose characters are ASCII code points.
  The string methods below are the ASCII fragment of the Python methods of the same name.
\<close>

definition ascii_lowercase :: string where
  "ascii_lowercase = ''abcdefghijklmnopqrstuvwxyz''"

definition ascii_uppercase :: string where
  "ascii_uppercase = ''ABCDEFGHIJKLMNOPQRSTUVWXYZ''"

definition lower_char :: "char \<Rightarrow> char" where
  "lower_char c =
     (case map_of (zip ascii_uppercase ascii_lowercase) c of Some d \<Rightarrow> d | None \<Rightarrow> c)"

definition lower :: "string \<Rightarrow> string" where
  "lower s = map lower_char s"

text \<open>\<open>sub in s\<close> on strings: \<open>sub\<close> occurs in \<open>s\<close> as a contiguous substring.\<close>

fun str_in :: "string \<Rightarrow> string \<Rightarrow> bool" where
  "str_in sub [] = (sub = [])"
| "str_in sub (c # s) = (prefix sub (c # s) \<or> str_in sub s)"

text \<open>\<open>sep.join(xs)\<close>.\<close>

fun join :: "string \<Rightarrow> string list \<Rightarrow> string" where
  "join sep [] = []"
| "join sep [x] = x"
| "join sep (x # y # ys) = x @ sep @ join sep (y # ys)"

text \<open>\<open>s.startswith(p)\<close> is \<^const>\<open>prefix\<close> and \<open>s.endswith(p)\<close> is \<^const>\<open>suffix\<close>.\<close>

section \<open>Fit scoring (app/utils/filter.py, app/utils/config.py)\<close>

text \<open>
  Python floats are modelled by exact rationals. Every contribution of the scorer is a
  multiple of \<open>0.05\<close>, so rounding to three decimals is the only place where the two could
  part, and \<open>round3\<close> below is Python's \<open>round(x, 3)\<close> (round half to even) on exact values.
\<close>

record FilterConfig =
  min_score :: rat
  title_keywords :: "string list"
  preferred_ats :: "string list"
  preferred_locations :: "string list"
  excluded_locations :: "string list"

definition default_FilterConfig :: FilterConfig where
  "default_FilterConfig =
     \<lparr> min_score = 30 / 100,
       title_keywords =
         [''intern'', ''internship'', ''swe'', ''software engineer'',
          ''backend'', ''platform'', ''infra'', ''infrastructure'',
          ''data'', ''distributed'', ''database'', ''systems''],
       preferred_ats = [''ashby'', ''greenhouse'', ''lever''],
       preferred_locations = [],
       excluded_locations = [] \<rparr>"

record ScoringResult =
  score :: rat
  reason :: string
  should_queue :: bool

text \<open>The table \<open>_ATS_BOOST\<close>; the third component is the boost as \<open>{boost:.0%}\<close> prints it.\<close>

definition ATS_BOOST :: "(string \<times> rat \<times> string) list" where
  "ATS_BOOST =
     [(''ashby'', 20 / 100, ''20%''),
      (''greenhouse'', 10 / 100, ''10%''),
      (''lever'', 10 / 100, ''10%'')]"

definition round_half_even :: "rat \<Rightarrow> int" where
  "round_half_even x =
     (let f = \<lfloor>x\<rfloor>; d = x - of_int f
      in if d < 1 / 2 then f
         else if 1 / 2 < d then f + 1
         else if even f then f else f + 1)"

definition round3 :: "rat \<Rightarrow> rat" where
  "round3 x = of_int (round_half_even (x * 1000)) / 1000"

text \<open>\<open>x or d\<close> on an optional string: \<open>None\<close> and the empty string are both falsy.\<close>

definition or_str :: "string option \<Rightarrow> string \<Rightarrow> string" where
  "or_str x d = (case x of None \<Rightarrow> d | Some s \<Rightarrow> if s = [] then d else s)"

text \<open>The keyword loop: the configured keywords whose lowercase occurs in the title.\<close>

definition matched_keywords :: "string list \<Rightarrow> string \<Rightarrow> string list" where
  "matched_keywords kws title_lower = filter (\<lambda>kw. str_in (lower kw) title_lower) kws"

text \<open>The loop over the excluded locations returns at the first match.\<close>

fun first_excluded :: "string list \<Rightarrow> string \<Rightarrow> string option" where
  "first_excluded [] location_lower = None"
| "first_excluded (excl # rest) location_lower =
     (if str_in (lower excl) location_lower then Some excl
      else first_excluded rest location_lower)"

text \<open>The loop over the preferred locations breaks at the first match.\<close>

fun first_preferred :: "string list \<Rightarrow> string \<Rightarrow> string option" where
  "first_preferred [] location_lower = None"
| "first_preferred (pref # rest) location_lower =
     (if str_in (lower pref) location_lower \<or> str_in ''remote'' location_lower then Some pref
      else first_preferred rest location_lower)"

text \<open>The local \<open>keyword_score\<close>: the first match is worth 0.35, each further one 0.05.\<close>

definition keyword_score :: "string list \<Rightarrow> rat" where
  "keyword_score matched = min (50 / 100) (35 / 100 + 5 / 100 * (of_nat (length matched) - 1))"

definition score_job ::
  "string \<Rightarrow> string \<Rightarrow> string option \<Rightarrow> string option \<Rightarrow> FilterConfig \<Rightarrow> ScoringResult" where
  "score_job title company location ats_type cfg =
     (let title_lower = lower title;
          location_lower = lower (or_str location []);
          ats = lower (or_str ats_type ''unknown'');
          matched = matched_keywords (title_keywords cfg) title_lower;
          (score1, reasons1) =
            (if matched \<noteq> []
             then (keyword_score matched,
                   [''title matches: '' @ join '', '' (take 3 matched)])
             else (0, [''no title keyword match'']));
          (score2, reasons2) =
            (case map_of ATS_BOOST ats of
               Some (boost, pct) \<Rightarrow>
                 (score1 + boost, reasons1 @ [''preferred ATS ('' @ ats @ '' +'' @ pct @ '')''])
             | None \<Rightarrow> (score1, reasons1))
      in case first_excluded (excluded_locations cfg) location_lower of
           Some excl \<Rightarrow>
             \<lparr> score = 0,
               reason = join ''; '' (reasons2 @ [''excluded location: '' @ excl]),
               should_queue = False \<rparr>
         | None \<Rightarrow>
             (let (score3, reasons3) =
                    (if preferred_locations cfg \<noteq> []
                     then (case first_preferred (preferred_locations cfg) location_lower of
                             Some pref \<Rightarrow>
                               (score2 + 5 / 100,
                                reasons2 @ [''preferred location ('' @ pref @ '')''])
                           | None \<Rightarrow> (score2, reasons2))
                     else if str_in ''remote'' location_lower
                          then (score2 + 5 / 100, reasons2 @ [''remote''])
                          else (score2, reasons2));
                  final = min 1 (round3 score3)
              in \<lparr> score = final,
                   reason = join ''; '' reasons3,
                   should_queue = (min_score cfg \<le> final) \<rparr>))"

section \<open>URL parsing (urllib.parse)\<close>

text \<open>
  The library functions that \<open>app/utils/hashing.py\<close> calls, after \<open>urllib.parse\<close> of
  CPython 3.11, on ASCII strings. Two library paths are not modelled and are reported as
  \<open>Unmodelled\<close> instead of being given a value: the validation of a bracketed (IP literal)
  host, and percent-escapes that decode to bytes beyond ASCII (UTF-8 decoding).
  \<open>ValueError\<close> is the exception that \<open>urlsplit\<close> raises for an unbalanced bracket.
\<close>

datatype error = ValueError | Unmodelled

definition ascii_letters :: string where
  "ascii_letters = ascii_lowercase @ ascii_uppercase"

definition scheme_chars :: string where
  "scheme_chars = ''abcdefghijklmnopqrstuvwxyzABCDEFGHIJKLMNOPQRSTUVWXYZ0123456789+-.''"

definition uses_netloc :: "string list" where
  "uses_netloc =
     ['''', ''ftp'', ''http'', ''gopher'', ''nntp'', ''telnet'', ''imap'', ''wais'', ''file'',
      ''mms'', ''https'', ''shttp'', ''snews'', ''prospero'', ''rtsp'', ''rtsps'', ''rtspu'',
      ''rsync'', ''svn'', ''svn+ssh'', ''sftp'', ''nfs'', ''git'', ''git+ssh'', ''ws'', ''wss'']"

definition uses_params :: "string list" where
  "uses_params =
     ['''', ''ftp'', ''hdl'', ''prospero'', ''http'', ''imap'', ''https'', ''shttp'', ''rtsp'',
      ''rtsps'', ''rtspu'', ''sip'', ''sips'', ''mms'', ''sftp'', ''tel'']"

text \<open>\<open>_WHATWG_C0_CONTROL_OR_SPACE\<close>: the code points 0 to 32.\<close>

definition is_c0_or_space :: "char \<Rightarrow> bool" where
  "is_c0_or_space c = ((of_char c :: nat) \<le> 32)"

text \<open>\<open>_UNSAFE_URL_BYTES_TO_REMOVE\<close>: tab, carriage return, line feed.\<close>

definition unsafe_url_bytes :: string where
  "unsafe_url_bytes = [CHR 0x09, CHR 0x0D, CHR 0x0A]"

text \<open>The ASCII characters for which \<open>str.isspace\<close> holds; \<open>str.strip()\<close> removes them.\<close>

definition whitespace :: string where
  "whitespace =
     [CHR 0x09, CHR 0x0A, CHR 0x0B, CHR 0x0C, CHR 0x0D, CHR 0x1C, CHR 0x1D, CHR 0x1E, CHR 0x1F,
      CHR 0x20]"

definition strip :: "string \<Rightarrow> string" where
  "strip s =
     rev (dropWhile (\<lambda>c. c \<in> set whitespace) (rev (dropWhile (\<lambda>c. c \<in> set whitespace) s)))"

text \<open>\<open>s.rstrip(c)\<close> for a single character \<open>c\<close>.\<close>

definition rstrip_char :: "char \<Rightarrow> string \<Rightarrow> string" where
  "rstrip_char c s = rev (dropWhile (\<lambda>x. x = c) (rev s))"

text \<open>
  \<open>before c s\<close> and \<open>after c s\<close> are the two sides of the first \<open>c\<close> in \<open>s\<close>: the results of
  \<open>s.split(c, 1)\<close> and of \<open>s.partition(c)\<close>. Without a \<open>c\<close> they are \<open>s\<close> and the empty string.
\<close>

definition before :: "char \<Rightarrow> string \<Rightarrow> string" where
  "before c s = takeWhile (\<lambda>x. x \<noteq> c) s"

definition after :: "char \<Rightarrow> string \<Rightarrow> string" where
  "after c s = drop 1 (dropWhile (\<lambda>x. x \<noteq> c) s)"

text \<open>
  The scheme test of \<open>urlsplit\<close>: the first colon is not at position 0, the first character
  is a letter and every character before the colon is a scheme character.
\<close>

definition split_scheme :: "string \<Rightarrow> string \<times> string" where
  "split_scheme url =
     (let pre = before CHR '':'' url
      in if CHR '':'' \<in> set url \<and> pre \<noteq> [] \<and> hd pre \<in> set ascii_letters \<and>
            (\<forall>c\<in>set pre. c \<in> set scheme_chars)
         then (lower pre, after CHR '':'' url)
         else ([], url))"

text \<open>\<open>_splitnetloc(url, 2)\<close>: the network location ends at the first of \<open>/ ? #\<close>.\<close>

definition splitnetloc :: "string \<Rightarrow> string \<times> string" where
  "splitnetloc url =
     (takeWhile (\<lambda>c. c \<notin> set ''/?#'') (drop 2 url),
      dropWhile (\<lambda>c. c \<notin> set ''/?#'') (drop 2 url))"

definition check_brackets :: "string \<Rightarrow> error option" where
  "check_brackets netloc =
     (if (CHR ''['' \<in> set netloc \<and> CHR '']'' \<notin> set netloc) \<or>
         (CHR '']'' \<in> set netloc \<and> CHR ''['' \<notin> set netloc)
      then Some ValueError
      else if CHR ''['' \<in> set netloc \<and> CHR '']'' \<in> set netloc then Some Unmodelled
      else None)"

text \<open>The result is \<open>(scheme, netloc, path, query, fragment)\<close>.\<close>

definition urlsplit :: "string \<Rightarrow> error + (string \<times> string \<times> string \<times> string \<times> string)" where
  "urlsplit url0 =
     (let url1 = dropWhile is_c0_or_space url0;
          url2 = filter (\<lambda>c. c \<notin> set unsafe_url_bytes) url1;
          (scheme, url3) = split_scheme url2;
          (netloc, url4) = (if take 2 url3 = ''//'' then splitnetloc url3 else ([], url3))
      in case check_brackets netloc of
           Some e \<Rightarrow> Inl e
         | None \<Rightarrow>
             (let fragment = after CHR ''#'' url4;
                  url5 = before CHR ''#'' url4;
                  query = after CHR ''?'' url5;
                  url6 = before CHR ''?'' url5
              in Inr (scheme, netloc, url6, query, fragment)))"

text \<open>
  \<open>_splitparams\<close>: the parameters start at the first semicolon of the last path segment.
\<close>

definition splitparams :: "string \<Rightarrow> string \<times> string" where
  "splitparams url =
     (let last_seg = rev (takeWhile (\<lambda>c. c \<noteq> CHR ''/'') (rev url));
          front = take (length url - length last_seg) url
      in if CHR '';'' \<in> set last_seg
         then (front @ before CHR '';'' last_seg, after CHR '';'' last_seg)
         else (url, []))"

definition urlunsplit :: "string \<Rightarrow> string \<Rightarrow> string \<Rightarrow> string \<Rightarrow> string \<Rightarrow> string" where
  "urlunsplit scheme netloc url query fragment =
     (let url1 =
            (if netloc \<noteq> [] \<or> (scheme \<noteq> [] \<and> scheme \<in> set uses_netloc) \<or> take 2 url = ''//''
             then ''//'' @ netloc @ (if url \<noteq> [] \<and> take 1 url \<noteq> ''/'' then ''/'' @ url else url)
             else url);
          url2 = (if scheme \<noteq> [] then scheme @ '':'' @ url1 else url1);
          url3 = (if query \<noteq> [] then url2 @ ''?'' @ query else url2)
      in if fragment \<noteq> [] then url3 @ ''#'' @ fragment else url3)"

definition urlunparse ::
  "string \<Rightarrow> string \<Rightarrow> string \<Rightarrow> string \<Rightarrow> string \<Rightarrow> string \<Rightarrow> string" where
  "urlunparse scheme netloc url params query fragment =
     urlunsplit scheme netloc (if params \<noteq> [] then url @ '';'' @ params else url) query fragment"

record ParseResult =
  scheme :: string
  netloc :: string
  path :: string
  params :: string
  query :: string
  fragment :: string

definition urlparse :: "string \<Rightarrow> error + ParseResult" where
  "urlparse url =
     (case urlsplit url of
        Inl e \<Rightarrow> Inl e
      | Inr (sch, loc, url1, qry, frag) \<Rightarrow>
          (let (url2, prm) =
                 (if sch \<in> set uses_params \<and> CHR '';'' \<in> set url1 then splitparams url1
                  else (url1, []))
           in Inr \<lparr> scheme = sch, netloc = loc, path = url2, params = prm,
                    query = qry, fragment = frag \<rparr>))"

subsection \<open>Query strings\<close>

text \<open>\<open>s.split(c)\<close>: the pieces between the occurrences of \<open>c\<close>, at least one piece.\<close>

fun split_on :: "char \<Rightarrow> string \<Rightarrow> string list" where
  "split_on c [] = [[]]"
| "split_on c (x # xs) =
     (if x = c then [] # split_on c xs
      else (case split_on c xs of w # ws \<Rightarrow> (x # w) # ws | [] \<Rightarrow> [[x]]))"

definition hex_value :: "char \<Rightarrow> nat option" where
  "hex_value c =
     map_of (zip ''0123456789ABCDEFabcdef''
               [0, 1, 2, 3, 4, 5, 6, 7, 8, 9, 10, 11, 12, 13, 14, 15, 10, 11, 12, 13, 14, 15]) c"

text \<open>
  \<open>unquote_to_bytes\<close>: a percent sign followed by two hexadecimal digits is the byte they
  denote; any other percent sign stays.
\<close>

fun unquote_to_bytes :: "string \<Rightarrow> string" where
  "unquote_to_bytes [] = []"
| "unquote_to_bytes (c # s) =
     (if c = CHR ''%''
      then (case s of
              a # b # rest \<Rightarrow>
                (case (hex_value a, hex_value b) of
                   (Some h, Some l) \<Rightarrow> char_of (16 * h + l) # unquote_to_bytes rest
                 | _ \<Rightarrow> CHR ''%'' # unquote_to_bytes s)
            | _ \<Rightarrow> CHR ''%'' # unquote_to_bytes s)
      else c # unquote_to_bytes s)"

definition is_ascii :: "char \<Rightarrow> bool" where
  "is_ascii c = ((of_char c :: nat) < 128)"

text \<open>Decoding the bytes as UTF-8 is modelled for ASCII bytes only.\<close>

definition decode :: "string \<Rightarrow> error + string" where
  "decode bs = (if \<forall>c\<in>set bs. is_ascii c then Inr bs else Inl Unmodelled)"

definition unquote :: "string \<Rightarrow> error + string" where
  "unquote s = (if CHR ''%'' \<notin> set s then Inr s else decode (unquote_to_bytes s))"

definition unquote_plus :: "string \<Rightarrow> error + string" where
  "unquote_plus s = unquote (map (\<lambda>c. if c = CHR ''+'' then CHR '' '' else c) s)"

text \<open>
  The loop of \<open>parse_qsl\<close> with \<open>keep_blank_values=False\<close>: a field with an empty value, or
  without an equals sign, is dropped.
\<close>

fun parse_fields :: "string list \<Rightarrow> error + (string \<times> string) list" where
  "parse_fields [] = Inr []"
| "parse_fields (name_value # rest) =
     (if name_value \<noteq> [] \<and> after CHR ''='' name_value \<noteq> []
      then (case unquote_plus (before CHR ''='' name_value) of
              Inl e \<Rightarrow> Inl e
            | Inr name \<Rightarrow>
                (case unquote_plus (after CHR ''='' name_value) of
                   Inl e \<Rightarrow> Inl e
                 | Inr val \<Rightarrow>
                     (case parse_fields rest of
                        Inl e \<Rightarrow> Inl e
                      | Inr r \<Rightarrow> Inr ((name, val) # r))))
      else parse_fields rest)"

definition parse_qsl :: "string \<Rightarrow> error + (string \<times> string) list" where
  "parse_qsl qs = (if qs = [] then Inr [] else parse_fields (split_on CHR ''&'' qs))"

text \<open>
  A Python dict from names to lists of values is an association list in insertion order.
\<close>

fun dict_add :: "(string \<times> string list) list \<Rightarrow> string \<times> string \<Rightarrow> (string \<times> string list) list" where
  "dict_add [] (name, val) = [(name, [val])]"
| "dict_add ((k, vs) # d) (name, val) =
     (if k = name then (k, vs @ [val]) # d else (k, vs) # dict_add d (name, val))"

definition parse_qs :: "string \<Rightarrow> error + (string \<times> string list) list" where
  "parse_qs qs =
     (case parse_qsl qs of Inl e \<Rightarrow> Inl e | Inr pairs \<Rightarrow> Inr (foldl dict_add [] pairs))"

definition always_safe :: string where
  "always_safe = ''ABCDEFGHIJKLMNOPQRSTUVWXYZabcdefghijklmnopqrstuvwxyz0123456789_.-~''"

definition hex_upper :: "nat \<Rightarrow> char" where
  "hex_upper n = ''0123456789ABCDEF'' ! n"

text \<open>\<open>quote_plus\<close> with no extra safe characters: a space is a plus sign.\<close>

definition quote_char :: "char \<Rightarrow> string" where
  "quote_char c =
     (if c = CHR '' '' then ''+''
      else if c \<in> set always_safe then [c]
      else [CHR ''%'', hex_upper (of_char c div 16), hex_upper (of_char c mod 16)])"

definition quote_plus :: "string \<Rightarrow> string" where
  "quote_plus s = concat (map quote_char s)"

text \<open>\<open>urlencode(query, doseq=True)\<close> on a dict of lists.\<close>

definition urlencode :: "(string \<times> string list) list \<Rightarrow> string" where
  "urlencode d =
     join ''&'' (concat (map (\<lambda>(k, vs). map (\<lambda>elt. quote_plus k @ ''='' @ quote_plus elt) vs) d))"

section \<open>SHA-256 (hashlib.sha256)\<close>

type_synonym w32 = "32 word"

definition rotr :: "nat \<Rightarrow> w32 \<Rightarrow> w32" where
  "rotr n x = word_rotr n x"

definition Ch :: "w32 \<Rightarrow> w32 \<Rightarrow> w32 \<Rightarrow> w32" where
  "Ch x y z = (x AND y) XOR (NOT x AND z)"

definition Maj :: "w32 \<Rightarrow> w32 \<Rightarrow> w32 \<Rightarrow> w32" where
  "Maj x y z = (x AND y) XOR (x AND z) XOR (y AND z)"

definition Sigma0 :: "w32 \<Rightarrow> w32" where
  "Sigma0 x = rotr 2 x XOR rotr 13 x XOR rotr 22 x"
definition Sigma1 :: "w32 \<Rightarrow> w32" where
  "Sigma1 x = rotr 6 x XOR rotr 11 x XOR rotr 25 x"
definition sigma0 :: "w32 \<Rightarrow> w32" where
  "sigma0 x = rotr 7 x XOR rotr 18 x XOR drop_bit 3 x"
definition sigma1 :: "w32 \<Rightarrow> w32" where
  "sigma1 x = rotr 17 x XOR rotr 19 x XOR drop_bit 10 x"

definition sha256_K :: "w32 list" where
  "sha256_K =
    [0x428A2F98, 0x71374491, 0xB5C0FBCF, 0xE9B5DBA5, 0x3956C25B, 0x59F111F1, 0x923F82A4, 0xAB1C5ED5,
     0xD807AA98, 0x12835B01, 0x243185BE, 0x550C7DC3, 0x72BE5D74, 0x80DEB1FE, 0x9BDC06A7, 0xC19BF174,
     0xE49B69C1, 0xEFBE4786, 0x0FC19DC6, 0x240CA1CC, 0x2DE92C6F, 0x4A7484AA, 0x5CB0A9DC, 0x76F988DA,
     0x983E5152, 0xA831C66D, 0xB00327C8, 0xBF597FC7, 0xC6E00BF3, 0xD5A79147, 0x06CA6351, 0x14292967,
     0x27B70A85, 0x2E1B2138, 0x4D2C6DFC, 0x53380D13, 0x650A7354, 0x766A0ABB, 0x81C2C92E, 0x92722C85,
     0xA2BFE8A1, 0xA81A664B, 0xC24B8B70, 0xC76C51A3, 0xD192E819, 0xD6990624, 0xF40E3585, 0x106AA070,
     0x19A4C116, 0x1E376C08, 0x2748774C, 0x34B0BCB5, 0x391C0CB3, 0x4ED8AA4A, 0x5B9CCA4F, 0x682E6FF3,
     0x748F82EE, 0x78A5636F, 0x84C87814, 0x8CC70208, 0x90BEFFFA, 0xA4506CEB, 0xBEF9A3F7, 0xC67178F2]"

definition sha256_H0 :: "w32 list" where
  "sha256_H0 =
    [0x6A09E667, 0xBB67AE85, 0x3C6EF372, 0xA54FF53A, 0x510E527F, 0x9B05688C, 0x1F83D9AB, 0x5BE0CD19]"


text \<open>
  Padding: the byte \<open>0x80\<close>, zero bytes up to 56 modulo 64, and the bit length of the
  message as a 64-bit big-endian number (here its two 32-bit halves).
\<close>

definition sha256_pad :: "w32 list \<Rightarrow> w32 list" where
  "sha256_pad m = m @ [128] @ replicate ((119 - length m mod 64) mod 64) 0"

definition sha256_length_words :: "nat \<Rightarrow> w32 list" where
  "sha256_length_words n = [of_nat (n div 512 div 1024 div 1024), 8 * of_nat n]"

fun be_words :: "w32 list \<Rightarrow> w32 list" where
  "be_words (a # b # c # d # rest) =
     (((a * 256 + b) * 256 + c) * 256 + d) # be_words rest"
| "be_words _ = []"

fun chunks16 :: "nat \<Rightarrow> w32 list \<Rightarrow> w32 list list" where
  "chunks16 0 ws = []"
| "chunks16 (Suc n) ws = take 16 ws # chunks16 n (drop 16 ws)"

fun schedule :: "nat \<Rightarrow> w32 list \<Rightarrow> w32 list" where
  "schedule 0 w = w"
| "schedule (Suc n) w =
     (let t = length w
      in schedule n
           (w @ [sigma1 (w ! (t - 2)) + w ! (t - 7) + sigma0 (w ! (t - 15)) + w ! (t - 16)]))"

fun sha256_round :: "w32 list \<Rightarrow> w32 \<times> w32 \<Rightarrow> w32 list" where
  "sha256_round [a, b, c, d, e, f, g, h] (k, w) =
     (let t1 = h + Sigma1 e + Ch e f g + k + w;
          t2 = Sigma0 a + Maj a b c
      in [t1 + t2, a, b, c, d + t1, e, f, g])"
| "sha256_round s kw = s"

definition sha256_block :: "w32 list \<Rightarrow> w32 list \<Rightarrow> w32 list" where
  "sha256_block hs blk =
     map2 (+) hs (foldl sha256_round hs (zip sha256_K (schedule 48 blk)))"

definition hex_digit :: "w32 \<Rightarrow> char" where
  "hex_digit n = (case map_of (zip [0, 1, 2, 3, 4, 5, 6, 7, 8, 9, 10, 11, 12, 13, 14, 15] ''0123456789abcdef'') n of Some c \<Rightarrow> c | None \<Rightarrow> CHR ''?'')"

definition hex_word :: "w32 \<Rightarrow> string" where
  "hex_word w = map (\<lambda>i. hex_digit (drop_bit i w AND 15)) [28, 24, 20, 16, 12, 8, 4, 0]"

text \<open>\<open>hashlib.sha256(s.encode()).hexdigest()\<close> for an ASCII string \<open>s\<close>.\<close>

definition sha256_hex :: "string \<Rightarrow> string" where
  "sha256_hex s =
     (let ws = be_words (sha256_pad (map of_char s)) @ sha256_length_words (length s)
      in concat (map hex_word (foldl sha256_block sha256_H0 (chunks16 (length ws div 16) ws))))"

section \<open>Canonical URLs and their hashes (app/utils/hashing.py)\<close>

definition TRACKING_PARAMS :: "string list" where
  "TRACKING_PARAMS =
     [''utm_source'', ''utm_medium'', ''utm_campaign'', ''utm_term'', ''utm_content'',
      ''ref'', ''referrer'', ''source'', ''gh_src'', ''lever-origin'', ''lever-source'',
      ''ashby_source'', ''ems'', ''sid'', ''cid'', ''gclid'', ''fbclid'', ''msclkid'']"

definition REDIRECT_PARAMS :: "string list" where
  "REDIRECT_PARAMS = [''url'', ''link'', ''target'', ''redirect'', ''dest'', ''destination'']"

text \<open>
  The loop over \<open>_REDIRECT_PARAMS\<close>. Every list in a parsed query has an element, so
  \<open>qs[param][0]\<close> exists.
\<close>

fun first_redirect :: "string list \<Rightarrow> (string \<times> string list) list \<Rightarrow> string option" where
  "first_redirect [] qs = None"
| "first_redirect (param # rest) qs =
     (case map_of qs param of
        Some (candidate # _) \<Rightarrow>
          if prefix ''http'' candidate then Some candidate else first_redirect rest qs
      | _ \<Rightarrow> first_redirect rest qs)"

definition extract_redirect_url :: "string \<Rightarrow> error + string" where
  "extract_redirect_url url =
     (case urlparse url of
        Inl e \<Rightarrow> Inl e
      | Inr parsed \<Rightarrow>
          (case parse_qs (query parsed) of
             Inl e \<Rightarrow> Inl e
           | Inr qs \<Rightarrow>
               (case first_redirect REDIRECT_PARAMS qs of
                  Some candidate \<Rightarrow> Inr candidate
                | None \<Rightarrow> Inr url)))"

definition canonicalise_url :: "string \<Rightarrow> error + string" where
  "canonicalise_url url0 =
     (case extract_redirect_url (strip url0) of
        Inl e \<Rightarrow> Inl e
      | Inr url \<Rightarrow>
          (case urlparse url of
             Inl e \<Rightarrow> Inl e
           | Inr parsed \<Rightarrow>
               (case parse_qs (query parsed) of
                  Inl e \<Rightarrow> Inl e
                | Inr qs \<Rightarrow>
                    (let clean_qs = filter (\<lambda>(k, v). lower k \<notin> set TRACKING_PARAMS) qs;
                         clean_query = urlencode clean_qs;
                         path1 = (if rstrip_char CHR ''/'' (path parsed) \<noteq> []
                                  then rstrip_char CHR ''/'' (path parsed) else ''/'')
                     in Inr (urlunparse (lower (scheme parsed)) (lower (netloc parsed)) path1
                               [] clean_query [])))))"

definition url_hash :: "string \<Rightarrow> error + string" where
  "url_hash url =
     (case canonicalise_url url of Inl e \<Rightarrow> Inl e | Inr canon \<Rightarrow> Inr (sha256_hex canon))"

definition detect_ats_from_url :: "string \<Rightarrow> string" where
  "detect_ats_from_url url =
     (let url_lower = lower url
      in if str_in ''ashbyhq.com'' url_lower \<or> str_in ''jobs.ashby'' url_lower then ''ashby''
         else if str_in ''greenhouse.io'' url_lower \<or> str_in ''grnh.se'' url_lower \<or>
                 str_in ''gh_jid='' url_lower then ''greenhouse''
         else if str_in ''lever.co'' url_lower then ''lever''
         else if str_in ''myworkdayjobs.com'' url_lower \<or> str_in ''workday.com'' url_lower
              then ''workday''
         else if str_in ''smartrecruiters.com'' url_lower then ''smartrecruiters''
         else if str_in ''icims.com'' url_lower \<or> str_in ''icims=1'' url_lower then ''icims''
         else if str_in ''taleo.net'' url_lower then ''taleo''
         else if str_in ''workable.com'' url_lower then ''workable''
         else if str_in ''breezy.hr'' url_lower then ''breezy''
         else if str_in ''simplify.jobs'' url_lower then ''simplify''
         else ''unknown'')"

section \<open>Notions for stating the properties of canonical URLs\<close>

text \<open>
  \<open>add_query_param u k v\<close> is \<open>u\<close> with the parameter \<open>k=v\<close> added at the end of its query: in
  front of the fragment, after a question mark if \<open>u\<close> has no query yet and after an
  ampersand otherwise.
\<close>

definition add_query_param :: "string \<Rightarrow> string \<Rightarrow> string \<Rightarrow> string" where
  "add_query_param u k v =
     before CHR ''#'' u @ (if CHR ''?'' \<in> set (before CHR ''#'' u) then ''&'' else ''?'') @
     k @ ''='' @ v @ dropWhile (\<lambda>c. c \<noteq> CHR ''#'') u"

text \<open>
  \<open>add_trailing_slash u\<close> is \<open>u\<close> with a slash added at the end of its path, that is, in front
  of the query and the fragment. \<open>last_segment\<close> is what follows the last slash.
\<close>

definition add_trailing_slash :: "string \<Rightarrow> string" where
  "add_trailing_slash u =
     takeWhile (\<lambda>c. c \<notin> set ''?#'') u @ ''/'' @ dropWhile (\<lambda>c. c \<notin> set ''?#'') u"

definition last_segment :: "string \<Rightarrow> string" where
  "last_segment p = rev (takeWhile (\<lambda>c. c \<noteq> CHR ''/'') (rev p))"

text \<open>
  The stages of \<open>urlsplit\<close>: the cleaning of the input, and the split of what follows the
  scheme into the network location and the rest.
\<close>

definition clean_url :: "string \<Rightarrow> string" where
  "clean_url url0 = filter (\<lambda>c. c \<notin> set unsafe_url_bytes) (dropWhile is_c0_or_space url0)"

definition netloc_split :: "string \<Rightarrow> string \<times> string" where
  "netloc_split url3 = (if take 2 url3 = ''//'' then splitnetloc url3 else ([], url3))"

text \<open>
  What \<open>urlsplit\<close> makes of the part of a URL in front of its query and fragment: the
  scheme, the network location and the path.
\<close>

definition head_split :: "string \<Rightarrow> string \<times> string \<times> string" where
  "head_split b =
     (fst (split_scheme (clean_url b)),
      fst (netloc_split (snd (split_scheme (clean_url b)))),
      snd (netloc_split (snd (split_scheme (clean_url b)))))"

text \<open>
  The second half of \<open>canonicalise_url\<close>, what it does with the URL that
  \<open>extract_redirect_url\<close> returns; and the canonical URL as a function of the parts that it
  is made of.
\<close>

definition canonical_of_parts ::
  "string \<Rightarrow> string \<Rightarrow> string \<Rightarrow> (string \<times> string list) list \<Rightarrow> string" where
  "canonical_of_parts s n p qs =
     urlunparse (lower s) (lower n)
       (if rstrip_char CHR ''/'' p \<noteq> [] then rstrip_char CHR ''/'' p else ''/'') []
       (urlencode (filter (\<lambda>(k, v). lower k \<notin> set TRACKING_PARAMS) qs)) []"

definition normalise_url :: "string \<Rightarrow> error + string" where
  "normalise_url url =
     (case urlparse url of
        Inl e \<Rightarrow> Inl e
      | Inr parsed \<Rightarrow>
          (case parse_qs (query parsed) of
             Inl e \<Rightarrow> Inl e
           | Inr qs \<Rightarrow>
               Inr (canonical_of_parts (scheme parsed) (netloc parsed) (path parsed) qs)))"




section \<open>Extraction of jobs from a digest email (app/gmail/parser.py)\<close>

text \<open>Times are numbers; \<open>datetime.utcnow()\<close> is a parameter \<open>now\<close>.\<close>

record ParsedJob =
  job_company :: string
  job_title :: string
  job_url :: string
  job_url_hash :: string
  job_ats_type :: string
  job_location :: "string option"
  job_source_email_id :: "string option"
  job_discovered_at :: nat

text \<open>
  A raw candidate is the tuple \<open>(company, title, url, location)\<close> that the extraction
  strategies return. The strategies walk a document tree built by an HTML library and are not
  modelled: \<open>parse_email_html\<close> takes the list that \<open>_extract_candidates\<close> returns for the
  document, in document order.
\<close>

type_synonym candidate = "string \<times> string \<times> string \<times> string option"

text \<open>The loop over the candidates, with the locals \<open>seen_hashes\<close> and \<open>jobs\<close>.\<close>

fun parse_candidates ::
  "candidate list \<Rightarrow> string option \<Rightarrow> nat \<Rightarrow> string set \<Rightarrow> ParsedJob list \<Rightarrow>
   error + ParsedJob list" where
  "parse_candidates [] source_email_id now seen_hashes jobs = Inr jobs"
| "parse_candidates ((company, title, url, location) # rest) source_email_id now seen_hashes jobs =
     (if url = [] \<or> title = []
      then parse_candidates rest source_email_id now seen_hashes jobs
      else (case canonicalise_url url of
              Inl e \<Rightarrow> Inl e
            | Inr canon \<Rightarrow>
                (case url_hash canon of
                   Inl e \<Rightarrow> Inl e
                 | Inr h \<Rightarrow>
                     if h \<in> seen_hashes
                     then parse_candidates rest source_email_id now seen_hashes jobs
                     else parse_candidates rest source_email_id now (insert h seen_hashes)
                            (jobs @
                             [\<lparr> job_company = company, job_title = title, job_url = canon,
                                job_url_hash = h, job_ats_type = detect_ats_from_url canon,
                                job_location = location,
                                job_source_email_id = source_email_id,
                                job_discovered_at = now \<rparr>]))))"

definition parse_email_html ::
  "candidate list \<Rightarrow> string option \<Rightarrow> nat \<Rightarrow> error + ParsedJob list" where
  "parse_email_html candidates source_email_id now =
     parse_candidates candidates source_email_id now {} []"

text \<open>
  For stating what the loop does: a candidate is kept when its url and title are non-empty,
  its hash is the hash that the loop computes for it, and \<open>job_of\<close> is the job that the loop
  appends for it.
\<close>

definition candidate_ok :: "candidate \<Rightarrow> bool" where
  "candidate_ok c = (fst (snd (snd c)) \<noteq> [] \<and> fst (snd c) \<noteq> [])"

definition candidate_hash :: "candidate \<Rightarrow> error + string" where
  "candidate_hash c =
     (case canonicalise_url (fst (snd (snd c))) of
        Inl e \<Rightarrow> Inl e
      | Inr canon \<Rightarrow> url_hash canon)"

definition job_of :: "candidate \<Rightarrow> string option \<Rightarrow> nat \<Rightarrow> string \<Rightarrow> string \<Rightarrow> ParsedJob" where
  "job_of c source_email_id now canon h =
     (case c of (company, title, url, location) \<Rightarrow>
        \<lparr> job_company = company, job_title = title, job_url = canon, job_url_hash = h,
          job_ats_type = detect_ats_from_url canon, job_location = location,
          job_source_email_id = source_email_id, job_discovered_at = now \<rparr>)"

section \<open>The README feed (app/sources/github\_readme.py)\<close>

text \<open>
  The table is fetched over HTTP and parsed by an HTML library; the model starts at the
  table's rows. A cell carries what the code reads from it: its text, whether the text holds
  the continuation arrow or the lock glyph (two non-ASCII characters), the text of its first
  link if it has one, and its links with an \<open>href\<close>, each with the \<open>alt\<close> texts of the images
  inside it.
\<close>

record Cell =
  cell_text :: string
  cell_has_arrow :: bool
  cell_has_lock :: bool
  cell_link_text :: "string option"
  cell_links :: "(string \<times> string list) list"

text \<open>The emoji ranges hold no ASCII character, so on ASCII text only the final strip acts.\<close>

definition strip_emoji :: "string \<Rightarrow> string" where
  "strip_emoji text = strip text"

text \<open>The pattern \<open>^Apply$\<close>, ignoring case; \<open>$\<close> also matches before a final newline.\<close>

definition is_apply_alt :: "string \<Rightarrow> bool" where
  "is_apply_alt alt = (lower alt = ''apply'' \<or> lower alt = ''apply'' @ [CHR 0x0A])"

fun first_apply_link :: "(string \<times> string list) list \<Rightarrow> string option" where
  "first_apply_link [] = None"
| "first_apply_link ((href, alts) # rest) =
     (if \<exists>alt\<in>set alts. is_apply_alt alt then Some href else first_apply_link rest)"

definition get_apply_url :: "Cell \<Rightarrow> string option" where
  "get_apply_url application_td =
     (if cell_has_lock application_td then None
      else first_apply_link (cell_links application_td))"

definition SKIPPED_ATS :: "string set" where
  "SKIPPED_ATS = {''workday'', ''taleo''}"

text \<open>
  The loop over the rows, with the locals \<open>current_company\<close>, \<open>seen_hashes\<close> and \<open>jobs\<close>.
\<close>

fun fetch_rows ::
  "string list \<Rightarrow> Cell list list \<Rightarrow> nat \<Rightarrow> string option \<Rightarrow> string set \<Rightarrow> ParsedJob list \<Rightarrow>
   error + ParsedJob list" where
  "fetch_rows keywords_lower [] now current_company seen_hashes jobs = Inr jobs"
| "fetch_rows keywords_lower (cells # rest) now current_company seen_hashes jobs =
     (if length cells < 4
      then fetch_rows keywords_lower rest now current_company seen_hashes jobs
      else
        (let company_td = cells ! 0;
             role_td = cells ! 1;
             location_td = cells ! 2;
             application_td = cells ! 3;
             company_text = cell_text company_td;
             current_company1 =
               (if \<not> cell_has_arrow company_td
                then Some (strip_emoji (case cell_link_text company_td of
                                          Some a \<Rightarrow> a | None \<Rightarrow> company_text))
                else current_company)
         in if or_str current_company1 [] = []
            then fetch_rows keywords_lower rest now current_company1 seen_hashes jobs
            else
              (let url = or_str (get_apply_url application_td) []
               in if url = []
                  then fetch_rows keywords_lower rest now current_company1 seen_hashes jobs
                  else
                    (let role = strip_emoji (cell_text role_td)
                     in if role = []
                        then fetch_rows keywords_lower rest now current_company1 seen_hashes jobs
                        else if \<not> (\<exists>kw\<in>set keywords_lower. str_in kw (lower role))
                        then fetch_rows keywords_lower rest now current_company1 seen_hashes jobs
                        else
                          (let ats = detect_ats_from_url url
                           in if ats \<in> SKIPPED_ATS
                              then fetch_rows keywords_lower rest now current_company1
                                     seen_hashes jobs
                              else
                                (case canonicalise_url url of
                                   Inl e \<Rightarrow> Inl e
                                 | Inr canon \<Rightarrow>
                                     (case url_hash canon of
                                        Inl e \<Rightarrow> Inl e
                                      | Inr h \<Rightarrow>
                                          if h \<in> seen_hashes
                                          then fetch_rows keywords_lower rest now
                                                 current_company1 seen_hashes jobs
                                          else
                                            (let location =
                                                   (if strip_emoji (cell_text location_td) = []
                                                    then None
                                                    else Some (strip_emoji
                                                                 (cell_text location_td)))
                                             in fetch_rows keywords_lower rest now
                                                  current_company1 (insert h seen_hashes)
                                                  (jobs @
                                                   [\<lparr> job_company = or_str current_company1 [],
                                                      job_title = role, job_url = canon,
                                                      job_url_hash = h, job_ats_type = ats,
                                                      job_location = location,
                                                      job_source_email_id = None,
                                                      job_discovered_at = now \<rparr>])))))))))"

text \<open>
  \<open>table\<close> is the first table with the expected header columns, if the document has one.
\<close>

definition fetch_github_jobs ::
  "FilterConfig \<Rightarrow> Cell list list option \<Rightarrow> nat \<Rightarrow> error + ParsedJob list" where
  "fetch_github_jobs filter_cfg table now =
     (let keywords_lower = map lower (title_keywords filter_cfg)
      in case table of
           None \<Rightarrow> Inr []
         | Some rows \<Rightarrow> fetch_rows keywords_lower rows now None {} [])"

text \<open>For stating the pre-filter: what every emitted job satisfies.\<close>

definition passes_prefilter :: "string list \<Rightarrow> ParsedJob \<Rightarrow> bool" where
  "passes_prefilter keywords_lower j =
     ((\<exists>kw\<in>set keywords_lower. str_in kw (lower (job_title j))) \<and>
      job_ats_type j \<notin> SKIPPED_ATS)"

section \<open>The job store (app/models/schema.py) and its commands (app/cli/main.py)\<close>

datatype JobStatus = discovered | queued | filtered_out | skipped

datatype ApplicationStatus =
  app_queued | app_started | app_filled | app_needs_review | app_submitted | app_skipped
  | app_error

text \<open>
  A row's \<open>id\<close> is a fresh identifier (a random UUID in the code); the model numbers the rows
  of a table in the order of their creation, and no row is ever deleted.
\<close>

record JobPost =
  jp_id :: nat
  jp_url_hash :: string
  jp_company :: string
  jp_title :: string
  jp_location :: "string option"
  jp_url :: string
  jp_ats_type :: "string option"
  jp_fit_score :: rat
  jp_fit_reason :: string
  jp_source_email_id :: "string option"
  jp_discovered_at :: nat
  jp_status :: JobStatus

text \<open>Of an application, the columns that the queue command sets; the others stay empty.\<close>

record Application =
  app_id :: nat
  app_job_post_id :: nat
  app_created_at :: nat
  app_updated_at :: nat
  app_status :: ApplicationStatus
  app_ats_type :: "string option"

text \<open>
  The rows that a session sees: the committed rows and the ones it has added. A query in a
  session flushes first, so it sees the rows added before it.
\<close>

record session =
  job_posts :: "JobPost list"
  applications :: "Application list"

text \<open>The loop of \<open>_store_jobs\<close>, with the local \<open>new_count\<close>.\<close>

fun store_loop ::
  "ParsedJob list \<Rightarrow> string option \<Rightarrow> bool \<Rightarrow> nat \<Rightarrow> session \<Rightarrow> nat \<times> session" where
  "store_loop [] source_email_db_id dry_run new_count s = (new_count, s)"
| "store_loop (job # rest) source_email_db_id dry_run new_count s =
     (case find (\<lambda>jp. jp_url_hash jp = job_url_hash job) (job_posts s) of
        Some existing \<Rightarrow> store_loop rest source_email_db_id dry_run new_count s
      | None \<Rightarrow>
          if dry_run then store_loop rest source_email_db_id dry_run (new_count + 1) s
          else store_loop rest source_email_db_id dry_run (new_count + 1)
                 (s\<lparr> job_posts := job_posts s @
                       [\<lparr> jp_id = length (job_posts s),
                          jp_url_hash = job_url_hash job,
                          jp_company = job_company job,
                          jp_title = job_title job,
                          jp_location = job_location job,
                          jp_url = job_url job,
                          jp_ats_type = Some (job_ats_type job),
                          jp_fit_score = 0,
                          jp_fit_reason = [],
                          jp_source_email_id = source_email_db_id,
                          jp_discovered_at = job_discovered_at job,
                          jp_status = discovered \<rparr>] \<rparr>))"

text \<open>The result is \<open>(total, new_count)\<close> and the session with the added rows.\<close>

definition store_jobs ::
  "session \<Rightarrow> ParsedJob list \<Rightarrow> string option \<Rightarrow> bool \<Rightarrow> (nat \<times> nat) \<times> session" where
  "store_jobs s jobs source_email_db_id dry_run =
     (let (new_count, s') = store_loop jobs source_email_db_id dry_run 0 s
      in ((length jobs, new_count), s'))"

text \<open>A sequence of insert operations: calls of \<open>_store_jobs\<close>, one after the other.\<close>

fun store_all :: "session \<Rightarrow> (ParsedJob list \<times> string option \<times> bool) list \<Rightarrow> session" where
  "store_all s [] = s"
| "store_all s ((jobs, source_email_db_id, dry_run) # calls) =
     store_all (snd (store_jobs s jobs source_email_db_id dry_run)) calls"

subsection \<open>The queue command\<close>

text \<open>
  The rows that the command has loaded are objects of the session; the model names them by
  their position in the table. The first loop scores every discovered job and sorts it
  into \<open>to_queue\<close> or \<open>filtered_out\<close>; \<open>score_post\<close> is its call of \<open>score_job\<close> on a row.
\<close>

definition score_post :: "FilterConfig \<Rightarrow> JobPost \<Rightarrow> ScoringResult" where
  "score_post cfg jp =
     score_job (jp_title jp) (jp_company jp) (jp_location jp) (jp_ats_type jp) cfg"

fun score_loop ::
  "FilterConfig \<Rightarrow> nat list \<Rightarrow> JobPost list \<Rightarrow> nat list \<Rightarrow> nat list \<Rightarrow>
   JobPost list \<times> nat list \<times> nat list" where
  "score_loop cfg [] rows to_queue filtered = (rows, to_queue, filtered)"
| "score_loop cfg (i # rest) rows to_queue filtered =
     (let jp = rows ! i;
          result = score_post cfg jp;
          jp1 = jp\<lparr> jp_fit_score := score result, jp_fit_reason := reason result \<rparr>
      in if should_queue result
         then score_loop cfg rest (rows[i := jp1]) (to_queue @ [i]) filtered
         else score_loop cfg rest (rows[i := jp1]) to_queue (filtered @ [i]))"

definition active_statuses :: "ApplicationStatus set" where
  "active_statuses = {app_queued, app_started, app_filled, app_needs_review}"

text \<open>The second loop, over \<open>to_queue\<close>, with the local \<open>queued_count\<close>.\<close>

fun queue_loop :: "nat list \<Rightarrow> nat \<Rightarrow> nat \<Rightarrow> session \<Rightarrow> nat \<times> session" where
  "queue_loop [] now queued_count s = (queued_count, s)"
| "queue_loop (i # rest) now queued_count s =
     (let jp = (job_posts s ! i)\<lparr> jp_status := queued \<rparr>;
          s1 = s\<lparr> job_posts := (job_posts s)[i := jp] \<rparr>
      in case find (\<lambda>a. app_job_post_id a = jp_id jp \<and> app_status a \<in> active_statuses)
                (applications s1) of
           Some existing_app \<Rightarrow> queue_loop rest now queued_count s1
         | None \<Rightarrow>
             queue_loop rest now (queued_count + 1)
               (s1\<lparr> applications := applications s1 @
                      [\<lparr> app_id = length (applications s1),
                         app_job_post_id = jp_id jp,
                         app_created_at = now,
                         app_updated_at = now,
                         app_status = app_queued,
                         app_ats_type = jp_ats_type jp \<rparr>] \<rparr>))"

text \<open>The third loop, over \<open>filtered_out\<close>.\<close>

fun filter_loop :: "nat list \<Rightarrow> JobPost list \<Rightarrow> JobPost list" where
  "filter_loop [] rows = rows"
| "filter_loop (i # rest) rows =
     filter_loop rest (rows[i := (rows ! i)\<lparr> jp_status := filtered_out \<rparr>])"

text \<open>
  The command returns nothing; what it leaves behind is the store. The model returns the
  states of the store that the command commits, in order: none when there is nothing to
  score, one when no job passes the threshold or the user declines, two otherwise.
  \<open>min_score_opt\<close> is the option \<open>--min-score\<close>, \<open>yes\<close> the option \<open>--yes\<close> and
  \<open>confirmed\<close> the user's answer to the confirmation prompt.
\<close>

definition with_min_score :: "FilterConfig \<Rightarrow> rat option \<Rightarrow> FilterConfig" where
  "with_min_score cfg0 min_score_opt =
     (case min_score_opt of Some m \<Rightarrow> cfg0\<lparr> min_score := m \<rparr> | None \<Rightarrow> cfg0)"

definition queue ::
  "FilterConfig \<Rightarrow> rat option \<Rightarrow> bool \<Rightarrow> bool \<Rightarrow> nat \<Rightarrow> session \<Rightarrow> session list" where
  "queue cfg0 min_score_opt yes confirmed now s =
     (let cfg = with_min_score cfg0 min_score_opt;
          discovered_rows =
            filter (\<lambda>i. jp_status (job_posts s ! i) = discovered) [0..<length (job_posts s)]
      in if discovered_rows = [] then []
         else
           (let (rows1, to_queue, filtered) = score_loop cfg discovered_rows (job_posts s) [] [];
                s1 = s\<lparr> job_posts := rows1 \<rparr>
            in if to_queue = [] then [s1]
               else if \<not> yes \<and> \<not> confirmed then [s1]
               else
                 (let (queued_count, s2) = queue_loop to_queue now 0 s1;
                      s3 = s2\<lparr> job_posts := filter_loop filtered (job_posts s2) \<rparr>
                  in [s1, s3])))"

section \<open>Example data\<close>

text \<open>Two jobs as the parser emits them, and the store after their ingestion.\<close>

definition example_job :: ParsedJob where
  "example_job =
     \<lparr> job_company = ''Stripe'', job_title = ''Software Engineer Intern'',
       job_url = ''https://jobs.ashbyhq.com/stripe/abc123'',
       job_url_hash = ''8f39bfd0d8f4dac4646e161710b52d89fa7404d11a8330b0148d761fe4ec4c82'',
       job_ats_type = ''ashby'', job_location = None, job_source_email_id = None,
       job_discovered_at = 0 \<rparr>"

definition example_job2 :: ParsedJob where
  "example_job2 =
     \<lparr> job_company = ''Acme Corp'', job_title = ''Accountant'',
       job_url = ''https://acme.com/careers/accountant'',
       job_url_hash = ''9afdb7c74b8b44f29f18a49afd746a32e8efed559341a245d4afdbf5c64887e7'',
       job_ats_type = ''unknown'', job_location = None, job_source_email_id = None,
       job_discovered_at = 0 \<rparr>"

definition empty_store :: session where
  "empty_store = \<lparr> job_posts = [], applications = [] \<rparr>"

definition example_store :: session where
  "example_store = snd (store_jobs empty_store [example_job, example_job2] None False)"

text \<open>
  Three raw candidates of one document: the second has no title, and the third is the first
  again, with a trailing slash in place of the tracking parameter.
\<close>

definition example_candidates :: "candidate list" where
  "example_candidates =
     [(''Stripe'', ''Software Engineer Intern'',
       ''https://jobs.ashbyhq.com/stripe/abc123?utm_source=swelist'', None),
      (''Acme Corp'', [], ''https://acme.com/careers/accountant'', None),
      (''Stripe'', ''Software Engineer Intern (Summer)'',
       ''https://jobs.ashbyhq.com/stripe/abc123/'', None)]"

text \<open>
  A feed table of four rows: an open role, a closed role of the same company, a role on a
  skipped ATS, and a role whose title matches no keyword.
\<close>

definition text_cell :: "string \<Rightarrow> Cell" where
  "text_cell t =
     \<lparr> cell_text = t, cell_has_arrow = False, cell_has_lock = False, cell_link_text = None,
       cell_links = [] \<rparr>"

definition apply_cell :: "string \<Rightarrow> Cell" where
  "apply_cell href =
     \<lparr> cell_text = [], cell_has_arrow = False, cell_has_lock = False, cell_link_text = None,
       cell_links = [(href, [''Apply'']), (''https://simplify.jobs/p/1'', [''Simplify''])] \<rparr>"

definition example_table :: "Cell list list" where
  "example_table =
     [[text_cell ''Company'', text_cell ''Role'', text_cell ''Location''],
      [(text_cell ''Stripe'')\<lparr> cell_link_text := Some ''Stripe'' \<rparr>,
       text_cell ''Software Engineer Intern'', text_cell [],
       apply_cell ''https://jobs.ashbyhq.com/stripe/abc123?utm_source=Simplify&ref=Simplify'',
       text_cell ''1d''],
      [(text_cell [])\<lparr> cell_has_arrow := True \<rparr>,
       text_cell ''Data Engineer Intern'', text_cell ''Remote'',
       (text_cell [])\<lparr> cell_has_lock := True \<rparr>, text_cell ''2d''],
      [text_cell ''Oracle'', text_cell ''Software Engineer Intern'', text_cell ''Austin, TX'',
       apply_cell ''https://oracle.wd1.myworkdayjobs.com/en-US/jobs/1'', text_cell ''2d''],
      [text_cell ''Acme Corp'', text_cell ''Accountant'', text_cell ''Boston, MA'',
       apply_cell ''https://acme.com/careers/accountant'', text_cell ''3d'']]"

section \<open>Properties of the fit scorer\<close>

lemma first_excluded_None:
  "first_excluded xs l = None \<longleftrightarrow> (\<forall>x\<in>set xs. \<not> str_in (lower x) l)"
  by (induction xs) auto

lemma first_excluded_Some:
  "first_excluded xs l = Some e \<Longrightarrow> e \<in> set xs \<and> str_in (lower e) l"
  by (induction xs) (auto split: if_splits)

lemma join_snoc_suffix: "suffix x (join sep (rs @ [x]))"
proof (induction sep rs rule: join.induct)
  case (1 sep)
  show ?case by simp
next
  case (2 sep y)
  show ?case by (simp add: suffix_def)
next
  case (3 sep a b ys)
  then show ?case by (simp add: suffix_def) (metis append.assoc)
qed

lemma round_half_even_nonneg: "0 \<le> x \<Longrightarrow> 0 \<le> round_half_even x"
  by (auto simp: round_half_even_def Let_def)

lemma round3_nonneg: "0 \<le> x \<Longrightarrow> 0 \<le> round3 x"
  by (simp add: round3_def round_half_even_nonneg)

lemma keyword_score_bounds:
  "matched \<noteq> [] \<Longrightarrow> 0 \<le> keyword_score matched \<and> keyword_score matched \<le> 1 / 2"
  by (cases matched) (auto simp: keyword_score_def min_def)

lemma score_job_excluded:
  assumes "first_excluded (excluded_locations cfg) (lower (or_str location [])) = Some e"
  shows "score (score_job title company location ats_type cfg) = 0"
    and "\<not> should_queue (score_job title company location ats_type cfg)"
    and "suffix (''excluded location: '' @ e)
           (reason (score_job title company location ats_type cfg))"
  using assms
  by (auto simp: score_job_def Let_def join_snoc_suffix split: prod.splits option.splits)

lemma score_job_not_excluded:
  assumes "first_excluded (excluded_locations cfg) (lower (or_str location [])) = None"
  shows "should_queue (score_job title company location ats_type cfg) =
         (min_score cfg \<le> score (score_job title company location ats_type cfg))"
  using assms
  by (auto simp: score_job_def Let_def split: prod.splits option.splits)

text \<open>
  Claim C1. What the code returns at the claim's input: with the default configuration the
  title \<open>Software Engineer Intern\<close> matches two configured keywords, \<open>intern\<close> and
  \<open>software engineer\<close>, so the keyword contribution is 0.40 and not the 0.35 of a single
  match; with the 0.20 of \<open>ashby\<close> and no location the score is 0.60, not 0.55. The job is
  queued.
\<close>

theorem score_job_intern_ashby:
  "matched_keywords (title_keywords default_FilterConfig) (lower ''Software Engineer Intern'') =
     [''intern'', ''software engineer''] \<and>
   keyword_score [''intern'', ''software engineer''] = 40 / 100 \<and>
   score_job ''Software Engineer Intern'' company None (Some ''ashby'') default_FilterConfig =
     \<lparr> score = 60 / 100,
       reason = ''title matches: intern, software engineer; preferred ATS (ashby +20%)'',
       should_queue = True \<rparr>"
  unfolding score_job_def by code_simp

text \<open>
  Claim C5. If the lowercase of some configured excluded location occurs in the lowercased
  location, the score is exactly 0, the job is not queued, and the reason ends in
  \<open>excluded location: \<close> followed by a matching configured entry, whatever the title, the
  company and the ATS type are.
\<close>

theorem score_job_excluded_location:
  assumes "\<exists>x\<in>set (excluded_locations cfg). str_in (lower x) (lower (or_str location []))"
  shows "score (score_job title company location ats_type cfg) = 0 \<and>
         \<not> should_queue (score_job title company location ats_type cfg) \<and>
         (\<exists>e\<in>set (excluded_locations cfg).
            str_in (lower e) (lower (or_str location [])) \<and>
            suffix (''excluded location: '' @ e)
              (reason (score_job title company location ats_type cfg)))"
proof -
  from assms obtain e where
    e: "first_excluded (excluded_locations cfg) (lower (or_str location [])) = Some e"
    using first_excluded_None by (metis not_Some_eq)
  from first_excluded_Some [OF e] score_job_excluded [OF e] show ?thesis by blast
qed

theorem score_job_excluded_location_witness:
  "(\<exists>x\<in>set [''New York'']. str_in (lower x) (lower (or_str (Some ''New York, NY'') []))) \<and>
   score (score_job ''Software Engineer Intern'' ''X'' (Some ''New York, NY'') (Some ''ashby'')
            (default_FilterConfig\<lparr>excluded_locations := [''New York'']\<rparr>)) = 0 \<and>
   \<not> should_queue (score_job ''Software Engineer Intern'' ''X'' (Some ''New York, NY'')
            (Some ''ashby'') (default_FilterConfig\<lparr>excluded_locations := [''New York'']\<rparr>))"
proof -
  have h: "\<exists>x\<in>set (excluded_locations (default_FilterConfig\<lparr>excluded_locations := [''New York'']\<rparr>)).
             str_in (lower x) (lower (or_str (Some ''New York, NY'') []))"
    by code_simp
  from score_job_excluded_location [OF h, of "''Software Engineer Intern''" "''X''" "Some ''ashby''"] h
  show ?thesis by simp
qed

text \<open>
  Claim C6 as stated fails: with a threshold of 0 and a matching excluded location the score
  is 0, which reaches the threshold, and the job is not queued.
\<close>

theorem score_job_threshold_counterexample:
  "should_queue (score_job ''Software Engineer Intern'' ''X'' (Some ''New York, NY'')
      (Some ''ashby'') (default_FilterConfig\<lparr>min_score := 0, excluded_locations := [''New York'']\<rparr>))
   \<noteq> (min_score (default_FilterConfig\<lparr>min_score := 0, excluded_locations := [''New York'']\<rparr>)
        \<le> score (score_job ''Software Engineer Intern'' ''X'' (Some ''New York, NY'')
             (Some ''ashby'') (default_FilterConfig\<lparr>min_score := 0, excluded_locations := [''New York'']\<rparr>)))"
  by code_simp

text \<open>
  Claim C6, as amended. When no configured excluded location occurs in the location, or the
  threshold is positive, \<open>should_queue\<close> is \<open>score \<ge> min_score\<close>; in particular a job that
  scores exactly the threshold is then queued. (When an excluded location matches, the job
  is not queued, whatever the threshold.)
\<close>

theorem score_job_threshold:
  assumes "(\<forall>x\<in>set (excluded_locations cfg). \<not> str_in (lower x) (lower (or_str location [])))
           \<or> 0 < min_score cfg"
  shows "should_queue (score_job title company location ats_type cfg) =
         (min_score cfg \<le> score (score_job title company location ats_type cfg))"
proof (cases "first_excluded (excluded_locations cfg) (lower (or_str location []))")
  case None
  then show ?thesis by (rule score_job_not_excluded)
next
  case (Some e)
  with assms have "0 < min_score cfg"
    using first_excluded_Some [OF Some] by blast
  with score_job_excluded(1,2) [OF Some] show ?thesis by simp
qed

theorem score_job_threshold_witness:
  "((\<forall>x\<in>set (excluded_locations (default_FilterConfig\<lparr>min_score := 35 / 100\<rparr>)).
       \<not> str_in (lower x) (lower (or_str None [])))
    \<or> 0 < min_score (default_FilterConfig\<lparr>min_score := 35 / 100\<rparr>)) \<and>
   score (score_job ''Intern'' ''X'' None None (default_FilterConfig\<lparr>min_score := 35 / 100\<rparr>))
     = min_score (default_FilterConfig\<lparr>min_score := 35 / 100\<rparr>) \<and>
   should_queue (score_job ''Intern'' ''X'' None None (default_FilterConfig\<lparr>min_score := 35 / 100\<rparr>))"
proof -
  have h: "(\<forall>x\<in>set (excluded_locations (default_FilterConfig\<lparr>min_score := 35 / 100\<rparr>)).
              \<not> str_in (lower x) (lower (or_str None [])))
           \<or> 0 < min_score (default_FilterConfig\<lparr>min_score := 35 / 100\<rparr>)"
    by (simp add: default_FilterConfig_def)
  have s: "score (score_job ''Intern'' ''X'' None None (default_FilterConfig\<lparr>min_score := 35 / 100\<rparr>))
           = min_score (default_FilterConfig\<lparr>min_score := 35 / 100\<rparr>)"
    by code_simp
  from score_job_threshold [OF h, of "''Intern''" "''X''" None] s h show ?thesis by simp
qed

text \<open>
  Claim C8. For every title, company, location, ATS type and configuration the score lies
  between 0 and 1.
\<close>

theorem score_job_bounded:
  "0 \<le> score (score_job title company location ats_type cfg) \<and>
   score (score_job title company location ats_type cfg) \<le> 1"
proof (cases "first_excluded (excluded_locations cfg) (lower (or_str location []))")
  case (Some e)
  then show ?thesis using score_job_excluded(1) [OF Some] by simp
next
  case None
  have boost: "map_of ATS_BOOST a = Some (b, p) \<Longrightarrow> 0 \<le> b" for a b p
    by (auto simp: ATS_BOOST_def split: if_splits)
  have kw: "matched_keywords (title_keywords cfg) (lower title) \<noteq> [] \<Longrightarrow>
      0 \<le> keyword_score (matched_keywords (title_keywords cfg) (lower title))"
    using keyword_score_bounds by blast
  show ?thesis using None
    by (auto simp: score_job_def Let_def split: prod.splits option.splits if_splits
             intro!: round3_nonneg dest!: boost kw)
qed

section \<open>Properties of URL parsing\<close>

subsection \<open>Splitting at a character\<close>

lemma before_Nil [simp]: "before c [] = []" by (simp add: before_def)
lemma after_Nil [simp]: "after c [] = []" by (simp add: after_def)
lemma before_Cons: "before c (x # s) = (if x = c then [] else x # before c s)"
  by (simp add: before_def)
lemma after_Cons: "after c (x # s) = (if x = c then s else after c s)"
  by (simp add: after_def)

lemma before_notin [simp]: "c \<notin> set (before c s)"
  by (induction s) (auto simp: before_Cons)

lemma before_id [simp]: "c \<notin> set s \<Longrightarrow> before c s = s"
  by (induction s) (auto simp: before_Cons)

lemma after_none [simp]: "c \<notin> set s \<Longrightarrow> after c s = []"
  by (induction s) (auto simp: after_Cons)

lemma before_after: "c \<in> set s \<Longrightarrow> before c s @ c # after c s = s"
  by (induction s) (auto simp: before_Cons after_Cons)

lemma before_append_in: "c \<in> set x \<Longrightarrow> before c (x @ y) = before c x"
  by (induction x) (auto simp: before_Cons)

lemma after_append_in: "c \<in> set x \<Longrightarrow> after c (x @ y) = after c x @ y"
  by (induction x) (auto simp: after_Cons)

lemma before_append_notin: "c \<notin> set x \<Longrightarrow> before c (x @ y) = x @ before c y"
  by (induction x) (auto simp: before_Cons)

lemma after_append_notin: "c \<notin> set x \<Longrightarrow> after c (x @ y) = after c y"
  by (induction x) (auto simp: after_Cons)

lemma set_before_subset: "set (before c s) \<subseteq> set s"
  by (induction s) (auto simp: before_Cons)

lemma set_after_subset: "set (after c s) \<subseteq> set s"
  by (induction s) (auto simp: after_Cons)

lemma before_eq_Nil: "before c s = [] \<longleftrightarrow> s = [] \<or> hd s = c"
  by (cases s) (auto simp: before_Cons)

lemma hd_before: "before c s \<noteq> [] \<Longrightarrow> hd (before c s) = hd s"
  by (cases s) (auto simp: before_Cons)

subsection \<open>Lowercase\<close>

lemma length_cases: "length ascii_uppercase = length ascii_lowercase"
  by (simp add: ascii_uppercase_def ascii_lowercase_def)

lemma lower_not_upper: "d \<in> set ascii_lowercase \<Longrightarrow> d \<notin> set ascii_uppercase"
  by (auto simp: ascii_uppercase_def ascii_lowercase_def)

lemma lower_char_other: "c \<notin> set ascii_uppercase \<Longrightarrow> lower_char c = c"
proof -
  assume "c \<notin> set ascii_uppercase"
  then have "map_of (zip ascii_uppercase ascii_lowercase) c = None"
    using length_cases by (simp add: map_of_zip_is_None)
  then show ?thesis by (simp add: lower_char_def)
qed

lemma lower_char_upper: "c \<in> set ascii_uppercase \<Longrightarrow> lower_char c \<in> set ascii_lowercase"
proof -
  assume "c \<in> set ascii_uppercase"
  then obtain d where d: "map_of (zip ascii_uppercase ascii_lowercase) c = Some d"
    using length_cases map_of_zip_is_Some by fastforce
  then have "d \<in> set ascii_lowercase"
    by (meson map_of_SomeD set_zip_rightD)
  with d show ?thesis by (simp add: lower_char_def)
qed

lemma lower_char_idem [simp]: "lower_char (lower_char c) = lower_char c"
  by (cases "c \<in> set ascii_uppercase")
     (simp_all add: lower_char_other lower_char_upper lower_not_upper)

lemma lower_idem [simp]: "lower (lower s) = lower s"
  by (simp add: lower_def)

lemma lower_Nil [simp]: "lower [] = []" by (simp add: lower_def)
lemma lower_append [simp]: "lower (x @ y) = lower x @ lower y" by (simp add: lower_def)
lemma lower_eq_Nil [simp]: "lower s = [] \<longleftrightarrow> s = []" by (simp add: lower_def)
lemma length_lower [simp]: "length (lower s) = length s" by (simp add: lower_def)



subsection \<open>The stages of urlsplit\<close>

lemma urlsplit_staged:
  "urlsplit url0 =
     (case check_brackets (fst (netloc_split (snd (split_scheme (clean_url url0))))) of
        Some e \<Rightarrow> Inl e
      | None \<Rightarrow>
          Inr (fst (split_scheme (clean_url url0)),
               fst (netloc_split (snd (split_scheme (clean_url url0)))),
               before CHR ''?'' (before CHR ''#'' (snd (netloc_split (snd (split_scheme (clean_url url0)))))),
               after CHR ''?'' (before CHR ''#'' (snd (netloc_split (snd (split_scheme (clean_url url0)))))),
               after CHR ''#'' (snd (netloc_split (snd (split_scheme (clean_url url0)))))))"
  by (auto simp: urlsplit_def clean_url_def netloc_split_def Let_def split_beta
           split: option.splits)

lemma dropWhile_append_keep:
  "y = [] \<or> \<not> P (hd y) \<Longrightarrow> dropWhile P (x @ y) = dropWhile P x @ y"
proof (induction x)
  case Nil
  then show ?case by (cases y) auto
next
  case (Cons a x)
  then show ?case by simp
qed

lemma clean_url_append:
  "y = [] \<or> \<not> is_c0_or_space (hd y) \<Longrightarrow>
   clean_url (x @ y) = clean_url x @ filter (\<lambda>c. c \<notin> set unsafe_url_bytes) y"
  by (simp add: clean_url_def dropWhile_append_keep)

lemma split_scheme_append:
  assumes "y = [] \<or> (hd y \<notin> set scheme_chars \<and> hd y \<noteq> CHR '':'')"
  shows "split_scheme (x @ y) = (fst (split_scheme x), snd (split_scheme x) @ y)"
proof (cases "CHR '':'' \<in> set x")
  case True
  then show ?thesis
    by (simp add: split_scheme_def Let_def before_append_in after_append_in)
next
  case False
  then have x: "split_scheme x = ([], x)" by (simp add: split_scheme_def)
  show ?thesis
  proof (cases "CHR '':'' \<in> set y")
    case False
    with \<open>CHR '':'' \<notin> set x\<close> show ?thesis by (simp add: split_scheme_def x)
  next
    case True
    then have "y \<noteq> []" by auto
    with assms have h: "hd y \<notin> set scheme_chars" "hd y \<noteq> CHR '':''" by auto
    from \<open>y \<noteq> []\<close> h(2) have "hd y \<in> set (before CHR '':'' y)"
      by (cases y) (auto simp: before_Cons)
    then have "hd y \<in> set (before CHR '':'' (x @ y))"
      using False by (simp add: before_append_notin)
    with h(1) have "\<not> (\<forall>c\<in>set (before CHR '':'' (x @ y)). c \<in> set scheme_chars)" by blast
    then have "split_scheme (x @ y) = ([], x @ y)" by (simp add: split_scheme_def Let_def)
    with x show ?thesis by simp
  qed
qed


lemma takeWhile_append_stop:
  "y = [] \<or> \<not> P (hd y) \<Longrightarrow> takeWhile P (x @ y) = takeWhile P x"
proof (induction x)
  case Nil
  then show ?case by (cases y) auto
next
  case (Cons a x)
  then show ?case by simp
qed

lemma dropWhile_append_stop:
  "y = [] \<or> \<not> P (hd y) \<Longrightarrow> dropWhile P (x @ y) = dropWhile P x @ y"
  by (rule dropWhile_append_keep)

lemma take2_append:
  assumes "y = [] \<or> hd y \<noteq> CHR ''/''"
  shows "take 2 (r @ y) = ''//'' \<longleftrightarrow> take 2 r = ''//''"
proof (cases r)
  case Nil
  with assms show ?thesis by (cases y) (auto simp: numeral_2_eq_2)
next
  case (Cons a r')
  show ?thesis
  proof (cases r')
    case Nil
    with Cons assms show ?thesis by (cases y) (auto simp: numeral_2_eq_2)
  next
    case (Cons b r'')
    with \<open>r = a # r'\<close> show ?thesis by (simp add: numeral_2_eq_2)
  qed
qed

lemma netloc_split_append:
  assumes "y = [] \<or> hd y \<in> set ''?#''"
  shows "netloc_split (r @ y) = (fst (netloc_split r), snd (netloc_split r) @ y)"
proof -
  let ?P = "\<lambda>c. c \<notin> set ''/?#''"
  from assms have y: "y = [] \<or> hd y \<noteq> CHR ''/''" by auto
  from assms have d: "y = [] \<or> \<not> ?P (hd y)" by auto
  show ?thesis
  proof (cases "take 2 r = ''//''")
    case True
    then have "2 \<le> length r" by (cases r; cases "tl r") auto
    then have dr: "drop 2 (r @ y) = drop 2 r @ y" by simp
    have tw: "takeWhile ?P (drop 2 r @ y) = takeWhile ?P (drop 2 r)"
      using d by (rule takeWhile_append_stop)
    have dw: "dropWhile ?P (drop 2 r @ y) = dropWhile ?P (drop 2 r) @ y"
      using d by (rule dropWhile_append_stop)
    from True have T': "take 2 (r @ y) = ''//''" using take2_append [OF y, of r] by simp
    have "netloc_split (r @ y) = (takeWhile ?P (drop 2 (r @ y)), dropWhile ?P (drop 2 (r @ y)))"
      unfolding netloc_split_def splitnetloc_def by (simp only: T' if_True simp_thms)
    also have "\<dots> = (takeWhile ?P (drop 2 r), dropWhile ?P (drop 2 r) @ y)"
      by (simp only: dr tw dw)
    also have "\<dots> = (fst (netloc_split r), snd (netloc_split r) @ y)"
      unfolding netloc_split_def splitnetloc_def by (simp only: True if_True fst_conv snd_conv simp_thms)
    finally show ?thesis .
  next
    case False
    with take2_append [OF y, of r] show ?thesis by (simp add: netloc_split_def)
  qed
qed

lemma set_clean_url: "set (clean_url b) \<subseteq> set b"
  by (auto simp: clean_url_def dest: set_dropWhileD)

lemma set_split_scheme_snd: "set (snd (split_scheme x)) \<subseteq> set x"
  using set_after_subset by (auto simp: split_scheme_def Let_def)

lemma set_netloc_split_snd: "set (snd (netloc_split r)) \<subseteq> set r"
  by (auto simp: netloc_split_def splitnetloc_def dest!: set_dropWhileD in_set_dropD)

lemma set_head_split_path:
  "head_split b = (s, n, p) \<Longrightarrow> set p \<subseteq> set b"
  using set_clean_url set_split_scheme_snd set_netloc_split_snd
  by (fastforce simp: head_split_def)

lemma filter_unsafe_head:
  "t = [] \<or> hd t \<in> set ''?#'' \<Longrightarrow>
   filter (\<lambda>c. c \<notin> set unsafe_url_bytes) t = [] \<or>
   hd (filter (\<lambda>c. c \<notin> set unsafe_url_bytes) t) = hd t \<and> hd t \<in> set ''?#''"
  by (cases t) (auto simp: unsafe_url_bytes_def)

theorem urlsplit_head_tail:
  assumes b: "set b \<inter> set ''?#'' = {}" and t: "t = [] \<or> hd t \<in> set ''?#''"
    and h: "head_split b = (s, n, p)"
  shows "urlsplit (b @ t) =
     (case check_brackets n of
        Some e \<Rightarrow> Inl e
      | None \<Rightarrow>
          Inr (s, n, p,
               after CHR ''?'' (before CHR ''#'' (filter (\<lambda>c. c \<notin> set unsafe_url_bytes) t)),
               after CHR ''#'' (filter (\<lambda>c. c \<notin> set unsafe_url_bytes) t)))"
proof -
  define ct where "ct = filter (\<lambda>c. c \<notin> set unsafe_url_bytes) t"
  from filter_unsafe_head [OF t] have ct: "ct = [] \<or> hd ct \<in> set ''?#''"
    by (auto simp: ct_def)
  have c0: "t = [] \<or> \<not> is_c0_or_space (hd t)"
    using t by (auto simp: is_c0_or_space_def)
  have 1: "clean_url (b @ t) = clean_url b @ ct"
    using clean_url_append [OF c0] by (simp add: ct_def)
  have sc: "ct = [] \<or> (hd ct \<notin> set scheme_chars \<and> hd ct \<noteq> CHR '':'')"
    using ct by (auto simp: scheme_chars_def)
  have 2: "split_scheme (clean_url b @ ct) = (s, snd (split_scheme (clean_url b)) @ ct)"
    using split_scheme_append [OF sc] h by (simp add: head_split_def)
  have 3: "netloc_split (snd (split_scheme (clean_url b)) @ ct) = (n, p @ ct)"
    using netloc_split_append [OF ct] h by (simp add: head_split_def)
  from set_head_split_path [OF h] b have p: "CHR ''?'' \<notin> set p" "CHR ''#'' \<notin> set p"
    by auto
  have bq: "before CHR ''?'' (before CHR ''#'' ct) = []"
    using ct by (cases ct) (auto simp: before_Cons)
  have path: "before CHR ''?'' (before CHR ''#'' (p @ ct)) = p"
    using p bq by (simp add: before_append_notin)
  have qry: "after CHR ''?'' (before CHR ''#'' (p @ ct)) = after CHR ''?'' (before CHR ''#'' ct)"
    using p by (simp add: before_append_notin after_append_notin)
  have frag: "after CHR ''#'' (p @ ct) = after CHR ''#'' ct"
    using p by (simp add: after_append_notin)
  have "urlsplit (b @ t) =
     (case check_brackets n of
        Some e \<Rightarrow> Inl e
      | None \<Rightarrow>
          Inr (s, n, p, after CHR ''?'' (before CHR ''#'' ct), after CHR ''#'' ct))"
    unfolding urlsplit_staged by (simp only: 1 2 3 fst_conv snd_conv path qry frag)
  then show ?thesis by (simp only: ct_def)
qed

subsection \<open>Stripping\<close>

lemma dropWhile_id_iff: "dropWhile P s = s \<longleftrightarrow> s = [] \<or> \<not> P (hd s)"
proof (cases s)
  case Nil
  then show ?thesis by simp
next
  case (Cons a s')
  have "length (dropWhile P s') \<le> length s'" by (rule length_dropWhile_le)
  then have "dropWhile P s' \<noteq> a # s'" by (metis impossible_Cons)
  with Cons show ?thesis by auto
qed

lemma strip_id_iff:
  "strip s = s \<longleftrightarrow> s = [] \<or> (hd s \<notin> set whitespace \<and> last s \<notin> set whitespace)"
proof (cases "s = []")
  case True
  then show ?thesis by (simp add: strip_def)
next
  case False
  let ?P = "\<lambda>c. c \<in> set whitespace"
  show ?thesis
  proof
    assume s: "strip s = s"
    have "length s = length (dropWhile ?P (rev (dropWhile ?P s)))"
      using s by (metis length_rev strip_def)
    also have "\<dots> \<le> length (rev (dropWhile ?P s))" by (rule length_dropWhile_le)
    finally have "length s \<le> length (dropWhile ?P s)" by simp
    moreover have "length (dropWhile ?P s) \<le> length s" by (rule length_dropWhile_le)
    ultimately have "length (dropWhile ?P s) = length s" by simp
    then have d: "dropWhile ?P s = s"
      by (metis append_eq_append_conv append_self_conv2 takeWhile_dropWhile_id)
    with s have "rev (dropWhile ?P (rev s)) = s" by (simp add: strip_def)
    then have "dropWhile ?P (rev s) = rev s" by (metis rev_rev_ident)
    with d False show "s = [] \<or> (hd s \<notin> set whitespace \<and> last s \<notin> set whitespace)"
      by (simp add: dropWhile_id_iff hd_rev)
  next
    assume "s = [] \<or> (hd s \<notin> set whitespace \<and> last s \<notin> set whitespace)"
    with False have h: "hd s \<notin> set whitespace" "last s \<notin> set whitespace" by auto
    then have "dropWhile ?P s = s" by (simp add: dropWhile_id_iff)
    moreover have "dropWhile ?P (rev s) = rev s" using h False by (simp add: dropWhile_id_iff hd_rev)
    ultimately show "strip s = s" by (simp add: strip_def)
  qed
qed

lemma rstrip_char_append_same [simp]: "rstrip_char c (s @ [c]) = rstrip_char c s"
  by (simp add: rstrip_char_def)

lemma rstrip_char_Nil [simp]: "rstrip_char c [] = []"
  by (simp add: rstrip_char_def)

lemma rstrip_char_single [simp]: "rstrip_char c [c] = []"
  by (simp add: rstrip_char_def)

subsection \<open>Parameters\<close>

lemma last_segment_Nil [simp]: "last_segment [] = []"
  by (simp add: last_segment_def)

lemma last_segment_snoc_slash [simp]: "last_segment (p @ ''/'') = []"
  by (simp add: last_segment_def)

lemma splitparams_none:
  "CHR '';'' \<notin> set (last_segment p) \<Longrightarrow> splitparams p = (p, [])"
  by (simp add: splitparams_def last_segment_def)

text \<open>The head of the parse of a URL and of the URL with a trailing slash.\<close>

lemma head_split_slash:
  assumes "head_split b = (s, n, p)"
  shows "\<exists>p'. head_split (b @ ''/'') = (s, n, p') \<and>
              rstrip_char CHR ''/'' p' = rstrip_char CHR ''/'' p \<and> last_segment p' = []"
proof -
  let ?P = "\<lambda>c. c \<notin> set ''/?#''"
  define r where "r = snd (split_scheme (clean_url b))"
  have c: "clean_url (b @ ''/'') = clean_url b @ ''/''"
    using clean_url_append [of "''/''" b] by (simp add: is_c0_or_space_def unsafe_url_bytes_def)
  have sp: "split_scheme (clean_url b @ ''/'') = (s, r @ ''/'')"
    using split_scheme_append [of "''/''" "clean_url b"] assms
    by (simp add: scheme_chars_def head_split_def r_def)
  from assms have np: "netloc_split r = (n, p)" by (simp add: head_split_def r_def)
  have hs: "head_split (b @ ''/'') = (s, netloc_split (r @ ''/''))"
    by (simp add: head_split_def c sp)
  show ?thesis
  proof (cases "take 2 r = ''//''")
    case True
    then have "2 \<le> length r" by (cases r; cases "tl r") auto
    then have dr: "drop 2 (r @ ''/'') = drop 2 r @ ''/''" by simp
    have tw: "takeWhile ?P (drop 2 r @ ''/'') = takeWhile ?P (drop 2 r)"
      by (rule takeWhile_append_stop) simp
    have dw: "dropWhile ?P (drop 2 r @ ''/'') = dropWhile ?P (drop 2 r) @ ''/''"
      by (rule dropWhile_append_stop) simp
    from True have T': "take 2 (r @ ''/'') = ''//''" using \<open>2 \<le> length r\<close> by simp
    have "netloc_split (r @ ''/'') = (takeWhile ?P (drop 2 (r @ ''/'')), dropWhile ?P (drop 2 (r @ ''/'')))"
      unfolding netloc_split_def splitnetloc_def by (simp only: T' if_True simp_thms)
    also have "\<dots> = (takeWhile ?P (drop 2 r), dropWhile ?P (drop 2 r) @ ''/'')"
      by (simp only: dr tw dw)
    also have "\<dots> = (n, p @ ''/'')"
      using np unfolding netloc_split_def splitnetloc_def
      by (simp only: True if_True fst_conv snd_conv simp_thms prod.inject)
    finally show ?thesis using hs by simp
  next
    case False
    with np have n: "n = []" and p: "p = r" by (simp_all add: netloc_split_def)
    show ?thesis
    proof (cases "r = ''/''")
      case True
      then have "netloc_split (r @ ''/'') = ([], [])"
        by (simp add: netloc_split_def splitnetloc_def)
      with hs n p True show ?thesis by simp
    next
      case nr: False
      have "take 2 (r @ ''/'') \<noteq> ''//''"
      proof (cases r)
        case Nil
        then show ?thesis by simp
      next
        case (Cons a r')
        show ?thesis
        proof (cases r')
          case Nil
          with Cons nr show ?thesis by (simp add: numeral_2_eq_2)
        next
          case (Cons a' r'')
          with \<open>r = a # r'\<close> False show ?thesis by (simp add: numeral_2_eq_2)
        qed
      qed
      then have "netloc_split (r @ ''/'') = ([], r @ ''/'')" by (simp add: netloc_split_def)
      with hs n p show ?thesis by simp
    qed
  qed
qed

subsection \<open>Unfolding canonicalise_url\<close>

lemma canonicalise_url_normalise:
  "canonicalise_url url0 =
     (case extract_redirect_url (strip url0) of Inl e \<Rightarrow> Inl e | Inr url \<Rightarrow> normalise_url url)"
  by (simp add: canonicalise_url_def normalise_url_def canonical_of_parts_def Let_def
           split: sum.splits)

lemma canonicalise_url_parts:
  "canonicalise_url url0 =
     (case urlparse (strip url0) of
        Inl e \<Rightarrow> Inl e
      | Inr parsed \<Rightarrow>
          (case parse_qs (query parsed) of
             Inl e \<Rightarrow> Inl e
           | Inr qs \<Rightarrow>
               (case first_redirect REDIRECT_PARAMS qs of
                  Some candidate \<Rightarrow> normalise_url candidate
                | None \<Rightarrow>
                    Inr (canonical_of_parts (scheme parsed) (netloc parsed) (path parsed) qs))))"
  by (auto simp: canonicalise_url_normalise extract_redirect_url_def normalise_url_def
           split: sum.splits option.splits)

lemma urlparse_head_tail:
  assumes b: "set b \<inter> set ''?#'' = {}" and t: "t = [] \<or> hd t \<in> set ''?#''"
    and h: "head_split b = (s, n, p)"
  shows "urlparse (b @ t) =
     (case check_brackets n of
        Some e \<Rightarrow> Inl e
      | None \<Rightarrow>
          Inr \<lparr> scheme = s, netloc = n,
                path = fst (if s \<in> set uses_params \<and> CHR '';'' \<in> set p then splitparams p else (p, [])),
                params = snd (if s \<in> set uses_params \<and> CHR '';'' \<in> set p then splitparams p else (p, [])),
                query = after CHR ''?'' (before CHR ''#'' (filter (\<lambda>c. c \<notin> set unsafe_url_bytes) t)),
                fragment = after CHR ''#'' (filter (\<lambda>c. c \<notin> set unsafe_url_bytes) t) \<rparr>)"
  by (simp add: urlparse_def urlsplit_head_tail [OF b t h] Let_def split_beta
           split: option.splits)

lemma head_tail_decomp:
  "set (takeWhile (\<lambda>c. c \<notin> set ''?#'') u) \<inter> set ''?#'' = {} \<and>
   (dropWhile (\<lambda>c. c \<notin> set ''?#'') u = [] \<or>
    hd (dropWhile (\<lambda>c. c \<notin> set ''?#'') u) \<in> set ''?#'')"
proof -
  have "set (takeWhile (\<lambda>c. c \<notin> set ''?#'') u) \<inter> set ''?#'' = {}"
    using set_takeWhileD [of _ "\<lambda>c. c \<notin> set ''?#''" u] by blast
  moreover have "dropWhile (\<lambda>c. c \<notin> set ''?#'') u = [] \<or>
    hd (dropWhile (\<lambda>c. c \<notin> set ''?#'') u) \<in> set ''?#''"
    using hd_dropWhile [of "\<lambda>c. c \<notin> set ''?#''" u] by blast
  ultimately show ?thesis by blast
qed

lemma strip_add_trailing_slash:
  assumes "strip u = u"
  shows "strip (add_trailing_slash u) = add_trailing_slash u"
proof -
  define b where "b = takeWhile (\<lambda>c. c \<notin> set ''?#'') u"
  define t where "t = dropWhile (\<lambda>c. c \<notin> set ''?#'') u"
  have u: "u = b @ t" by (simp add: b_def t_def)
  have u': "add_trailing_slash u = b @ ''/'' @ t"
    by (simp add: add_trailing_slash_def b_def t_def)
  have sl: "CHR ''/'' \<notin> set whitespace" by (simp add: whitespace_def)
  have hdl: "hd (b @ ''/'' @ t) \<notin> set whitespace"
  proof (cases b)
    case Nil
    with sl show ?thesis by simp
  next
    case (Cons a b')
    then have "hd (b @ ''/'' @ t) = hd u" and "u \<noteq> []" by (simp_all add: u)
    then show ?thesis using assms by (simp add: strip_id_iff)
  qed
  have lst: "last (b @ ''/'' @ t) \<notin> set whitespace"
  proof (cases t)
    case Nil
    with sl show ?thesis by simp
  next
    case (Cons a t')
    then have "last (b @ ''/'' @ t) = last u" and "u \<noteq> []" by (simp_all add: u)
    then show ?thesis using assms by (simp add: strip_id_iff)
  qed
  have "b @ ''/'' @ t \<noteq> []" by simp
  with hdl lst have "strip (b @ ''/'' @ t) = b @ ''/'' @ t"
    by (simp only: strip_id_iff) blast
  then show ?thesis by (simp only: u')
qed

theorem canonicalise_url_trailing_slash:
  assumes st: "strip u = u"
    and semi: "\<And>s n p q f. urlsplit u = Inr (s, n, p, q, f) \<Longrightarrow> CHR '';'' \<notin> set (last_segment p)"
  shows "canonicalise_url (add_trailing_slash u) = canonicalise_url u"
proof -
  let ?b = "takeWhile (\<lambda>c. c \<notin> set ''?#'') u" and ?t = "dropWhile (\<lambda>c. c \<notin> set ''?#'') u"
  have u: "u = ?b @ ?t" by simp
  have u': "add_trailing_slash u = (?b @ ''/'') @ ?t" by (simp add: add_trailing_slash_def)
  from head_tail_decomp [of u] have b: "set ?b \<inter> set ''?#'' = {}"
    and t: "?t = [] \<or> hd ?t \<in> set ''?#''" by blast+
  from b have b': "set (?b @ ''/'') \<inter> set ''?#'' = {}" by auto
  obtain s n p where h: "head_split ?b = (s, n, p)" by (cases "head_split ?b") auto
  from head_split_slash [OF h] obtain p' where h': "head_split (?b @ ''/'') = (s, n, p')"
    and rs: "rstrip_char CHR ''/'' p' = rstrip_char CHR ''/'' p" and ls: "last_segment p' = []"
    by blast
  have su': "strip (add_trailing_slash u) = add_trailing_slash u"
    using st by (rule strip_add_trailing_slash)
  define q where "q = after CHR ''?'' (before CHR ''#'' (filter (\<lambda>c. c \<notin> set unsafe_url_bytes) ?t))"
  define f where "f = after CHR ''#'' (filter (\<lambda>c. c \<notin> set unsafe_url_bytes) ?t)"
  have sp1: "urlsplit u = (case check_brackets n of Some e \<Rightarrow> Inl e | None \<Rightarrow> Inr (s, n, p, q, f))"
    using urlsplit_head_tail [OF b t h] unfolding q_def f_def by (simp only: u [symmetric])
  have pa1: "urlparse u = (case check_brackets n of Some e \<Rightarrow> Inl e | None \<Rightarrow>
          Inr \<lparr> scheme = s, netloc = n,
                path = fst (if s \<in> set uses_params \<and> CHR '';'' \<in> set p then splitparams p else (p, [])),
                params = snd (if s \<in> set uses_params \<and> CHR '';'' \<in> set p then splitparams p else (p, [])),
                query = q, fragment = f \<rparr>)"
    using urlparse_head_tail [OF b t h] unfolding q_def f_def by (simp only: u [symmetric])
  have pa2: "urlparse (add_trailing_slash u) = (case check_brackets n of Some e \<Rightarrow> Inl e | None \<Rightarrow>
          Inr \<lparr> scheme = s, netloc = n,
                path = fst (if s \<in> set uses_params \<and> CHR '';'' \<in> set p' then splitparams p' else (p', [])),
                params = snd (if s \<in> set uses_params \<and> CHR '';'' \<in> set p' then splitparams p' else (p', [])),
                query = q, fragment = f \<rparr>)"
    using urlparse_head_tail [OF b' t h'] unfolding q_def f_def by (simp only: u' [symmetric])
  show ?thesis
  proof (cases "check_brackets n")
    case (Some e)
    then have "urlparse u = Inl e" "urlparse (add_trailing_slash u) = Inl e"
      using pa1 pa2 by simp_all
    then show ?thesis unfolding canonicalise_url_parts st su' by simp
  next
    case None
    then have "urlsplit u = Inr (s, n, p, q, f)" using sp1 by simp
    from semi [OF this] have sp: "splitparams p = (p, [])" by (rule splitparams_none)
    have sp': "splitparams p' = (p', [])" using ls by (simp add: splitparams_none)
    have 1: "urlparse u = Inr \<lparr> scheme = s, netloc = n, path = p, params = [],
                query = q, fragment = f \<rparr>"
      using pa1 None sp by simp
    have 2: "urlparse (add_trailing_slash u) = Inr \<lparr> scheme = s, netloc = n, path = p', params = [],
                query = q, fragment = f \<rparr>"
      using pa2 None sp' by simp
    show ?thesis
      unfolding canonicalise_url_parts st su' 1 2
      by (simp add: canonical_of_parts_def rs split: sum.splits option.splits)
  qed
qed

subsection \<open>Query strings with one more field\<close>

lemma split_on_ne [simp]: "split_on c s \<noteq> []"
  by (induction s) (auto split: list.splits)

lemma split_on_notin: "c \<notin> set s \<Longrightarrow> split_on c s = [s]"
  by (induction s) auto

lemma split_on_append: "split_on c (x @ c # y) = split_on c x @ split_on c y"
proof (induction x)
  case Nil
  show ?case by simp
next
  case (Cons a x)
  obtain w ws where "split_on c x = w # ws" by (cases "split_on c x") auto
  with Cons show ?case by (auto split: list.splits)
qed

lemma parse_fields_append:
  "parse_fields (xs @ ys) =
     (case parse_fields xs of
        Inl e \<Rightarrow> Inl e
      | Inr r \<Rightarrow> (case parse_fields ys of Inl e \<Rightarrow> Inl e | Inr r' \<Rightarrow> Inr (r @ r')))"
  by (induction xs) (auto split: sum.splits)

lemma parse_qsl_fields: "parse_qsl qs = parse_fields (split_on CHR ''&'' qs)"
  by (simp add: parse_qsl_def)

lemma unquote_plus_plain:
  "CHR ''%'' \<notin> set s \<Longrightarrow> CHR ''+'' \<notin> set s \<Longrightarrow> unquote_plus s = Inr s"
proof -
  assume a: "CHR ''%'' \<notin> set s" "CHR ''+'' \<notin> set s"
  then have "map (\<lambda>c. if c = CHR ''+'' then CHR '' '' else c) s = s"
    by (induction s) auto
  with a show ?thesis by (simp add: unquote_plus_def unquote_def)
qed

lemma parse_fields_one:
  assumes "CHR ''='' \<notin> set k" "CHR ''%'' \<notin> set k" "CHR ''+'' \<notin> set k"
    "CHR ''%'' \<notin> set v" "CHR ''+'' \<notin> set v"
  shows "parse_fields [k @ ''='' @ v] = Inr (if v = [] then [] else [(k, v)])"
  using assms
  by (simp add: before_append_notin after_append_notin before_Cons after_Cons unquote_plus_plain)

lemma parse_qsl_add:
  assumes "CHR ''='' \<notin> set k" "CHR ''%'' \<notin> set k" "CHR ''+'' \<notin> set k"
    "CHR ''%'' \<notin> set v" "CHR ''+'' \<notin> set v" "CHR ''&'' \<notin> set k" "CHR ''&'' \<notin> set v"
  shows "parse_qsl (q @ ''&'' @ k @ ''='' @ v) =
           (case parse_qsl q of
              Inl e \<Rightarrow> Inl e
            | Inr r \<Rightarrow> Inr (r @ (if v = [] then [] else [(k, v)])))"
    and "parse_qsl (k @ ''='' @ v) = Inr (if v = [] then [] else [(k, v)])"
proof -
  have kv: "split_on CHR ''&'' (k @ ''='' @ v) = [k @ ''='' @ v]"
    using assms by (simp add: split_on_notin)
  have "split_on CHR ''&'' (q @ ''&'' @ k @ ''='' @ v) = split_on CHR ''&'' q @ [k @ ''='' @ v]"
    using split_on_append [of "CHR ''&''" q "k @ ''='' @ v"] kv by simp
  then show "parse_qsl (q @ ''&'' @ k @ ''='' @ v) =
           (case parse_qsl q of
              Inl e \<Rightarrow> Inl e
            | Inr r \<Rightarrow> Inr (r @ (if v = [] then [] else [(k, v)])))"
    unfolding parse_qsl_fields
    by (simp only: parse_fields_append parse_fields_one [OF assms(1-5)] sum.case)
  show "parse_qsl (k @ ''='' @ v) = Inr (if v = [] then [] else [(k, v)])"
    using parse_fields_one [OF assms(1-5)] kv by (simp add: parse_qsl_fields)
qed

lemma map_of_dict_add: "p \<noteq> k \<Longrightarrow> map_of (dict_add d (k, v)) p = map_of d p"
  by (induction d "(k, v)" rule: dict_add.induct) auto

lemma first_redirect_dict_add:
  "k \<notin> set ps \<Longrightarrow> first_redirect ps (dict_add d (k, v)) = first_redirect ps d"
  by (induction ps) (auto simp: map_of_dict_add split: option.splits list.splits)

lemma filter_dict_add:
  "\<not> P k \<Longrightarrow> filter (\<lambda>(k', vs). P k') (dict_add d (k, v)) = filter (\<lambda>(k', vs). P k') d"
  by (induction d "(k, v)" rule: dict_add.induct) auto

subsection \<open>The names of the tracking parameters\<close>

lemma tracking_chars:
  "\<forall>t\<in>set TRACKING_PARAMS. set t \<subseteq> set (ascii_lowercase @ ''_-'')"
  by (simp add: TRACKING_PARAMS_def ascii_lowercase_def)

lemma redirect_not_tracking:
  "\<forall>r\<in>set REDIRECT_PARAMS. lower r \<notin> set TRACKING_PARAMS"
  by code_simp

lemma tracking_name_chars:
  assumes "lower k \<in> set TRACKING_PARAMS"
  shows "set k \<subseteq> set (ascii_letters @ ''_-'')"
proof
  fix c assume c: "c \<in> set k"
  then have "lower_char c \<in> set (lower k)" by (simp add: lower_def)
  with assms tracking_chars have l: "lower_char c \<in> set (ascii_lowercase @ ''_-'')" by blast
  show "c \<in> set (ascii_letters @ ''_-'')"
  proof (cases "c \<in> set ascii_uppercase")
    case True
    then show ?thesis by (simp add: ascii_letters_def)
  next
    case False
    with l show ?thesis by (auto simp: lower_char_other ascii_letters_def)
  qed
qed

lemma tracking_name_not_redirect:
  "lower k \<in> set TRACKING_PARAMS \<Longrightarrow> k \<notin> set REDIRECT_PARAMS"
  using redirect_not_tracking by blast

lemma always_safe_special: "c \<in> set always_safe \<Longrightarrow> c \<notin> set ''=&#?%+:/;''"
  by (auto simp: always_safe_def)

lemma always_safe_unsafe: "c \<in> set always_safe \<Longrightarrow> c \<notin> set unsafe_url_bytes"
  by (auto simp: always_safe_def unsafe_url_bytes_def)

lemma always_safe_space: "c \<in> set always_safe \<Longrightarrow> c \<notin> set whitespace"
  by (auto simp: always_safe_def whitespace_def)

lemma tracking_name_safe:
  "lower k \<in> set TRACKING_PARAMS \<Longrightarrow> set k \<subseteq> set always_safe"
proof -
  assume "lower k \<in> set TRACKING_PARAMS"
  from tracking_name_chars [OF this] have "set k \<subseteq> set (ascii_letters @ ''_-'')" .
  moreover have "set (ascii_letters @ ''_-'') \<subseteq> set always_safe"
    by (simp add: ascii_letters_def ascii_lowercase_def ascii_uppercase_def always_safe_def)
  ultimately show ?thesis by blast
qed

lemma parse_qs_add:
  assumes "set k \<subseteq> set always_safe" "set v \<subseteq> set always_safe"
  shows "parse_qs (q @ ''&'' @ k @ ''='' @ v) =
           (case parse_qs q of
              Inl e \<Rightarrow> Inl e
            | Inr d \<Rightarrow> Inr (if v = [] then d else dict_add d (k, v)))"
    and "parse_qs (k @ ''='' @ v) = Inr (if v = [] then [] else dict_add [] (k, v))"
proof -
  have sp: "x \<notin> set w" if "set w \<subseteq> set always_safe" "x \<in> set ''=&#?%+:/;''" for x w
    using that always_safe_special by blast
  have a: "CHR ''='' \<notin> set k" "CHR ''%'' \<notin> set k"
    "CHR ''+'' \<notin> set k" "CHR ''%'' \<notin> set v" "CHR ''+'' \<notin> set v" "CHR ''&'' \<notin> set k"
    "CHR ''&'' \<notin> set v"
    by (rule sp [OF assms(1)], simp, rule sp [OF assms(1)], simp, rule sp [OF assms(1)], simp,
        rule sp [OF assms(2)], simp, rule sp [OF assms(2)], simp, rule sp [OF assms(1)], simp,
        rule sp [OF assms(2)], simp)
  show "parse_qs (q @ ''&'' @ k @ ''='' @ v) =
           (case parse_qs q of
              Inl e \<Rightarrow> Inl e
            | Inr d \<Rightarrow> Inr (if v = [] then d else dict_add d (k, v)))"
    unfolding parse_qs_def parse_qsl_add(1) [OF a] by (simp split: sum.splits)
  show "parse_qs (k @ ''='' @ v) = Inr (if v = [] then [] else dict_add [] (k, v))"
    unfolding parse_qs_def parse_qsl_add(2) [OF a] by simp
qed

lemma filter_before:
  "P c \<Longrightarrow> filter P (before c s) = before c (filter P s)"
  by (induction s) (auto simp: before_Cons)

lemma after_dropWhile [simp]: "after c (dropWhile (\<lambda>x. x \<noteq> c) s) = after c s"
  by (induction s) (auto simp: after_Cons)

lemma before_dropWhile [simp]: "before c (dropWhile (\<lambda>x. x \<noteq> c) s) = []"
  by (induction s) (auto simp: before_Cons)

lemma before_dropWhile_id: "before c s @ dropWhile (\<lambda>x. x \<noteq> c) s = s"
  by (simp add: before_def)

theorem canonicalise_url_tracking_param:
  assumes st: "strip u = u" and k: "lower k \<in> set TRACKING_PARAMS"
    and v: "set v \<subseteq> set always_safe"
  shows "canonicalise_url (add_query_param u k v) = canonicalise_url u"
proof -
  define b where "b = takeWhile (\<lambda>c. c \<notin> set ''?#'') u"
  define t where "t = dropWhile (\<lambda>c. c \<notin> set ''?#'') u"
  define sep where "sep = (if CHR ''?'' \<in> set (before CHR ''#'' u) then ''&'' else ''?'')"
  define ins where "ins = sep @ k @ ''='' @ v"
  define t' where "t' = before CHR ''#'' t @ ins @ dropWhile (\<lambda>c. c \<noteq> CHR ''#'') t"
  define F where "F = filter (\<lambda>c. c \<notin> set unsafe_url_bytes)"
  define X where "X = F (before CHR ''#'' t)"
  define Y where "Y = F (dropWhile (\<lambda>c. c \<noteq> CHR ''#'') t)"
  have u: "u = b @ t" by (simp add: b_def t_def)
  from head_tail_decomp [of u] have b: "set b \<inter> set ''?#'' = {}"
    and t: "t = [] \<or> hd t \<in> set ''?#''" by (simp_all add: b_def t_def)
  from b have bh: "CHR ''#'' \<notin> set b" and bq: "CHR ''?'' \<notin> set b" by auto
  from tracking_name_safe [OF k] have ks: "set k \<subseteq> set always_safe" .
  have sepc: "sep = ''&'' \<or> sep = ''?''" by (simp add: sep_def)
  have safe_plain: "c \<noteq> CHR ''#'' \<and> c \<notin> set unsafe_url_bytes \<and> c \<notin> set whitespace"
    if "c \<in> set always_safe" for c
    using always_safe_special [OF that] always_safe_unsafe [OF that] always_safe_space [OF that]
    by simp
  have sep_plain: "c \<noteq> CHR ''#'' \<and> c \<notin> set unsafe_url_bytes \<and> c \<notin> set whitespace"
    if "c \<in> set (sep @ ''='')" for c
    using that sepc by (auto simp: unsafe_url_bytes_def whitespace_def)
  have ins_plain: "\<forall>c\<in>set ins. c \<noteq> CHR ''#'' \<and> c \<notin> set unsafe_url_bytes \<and> c \<notin> set whitespace"
  proof
    fix c assume "c \<in> set ins"
    then consider "c \<in> set (sep @ ''='')" | "c \<in> set k" | "c \<in> set v"
      by (auto simp: ins_def)
    then show "c \<noteq> CHR ''#'' \<and> c \<notin> set unsafe_url_bytes \<and> c \<notin> set whitespace"
    proof cases
      case 1 then show ?thesis by (rule sep_plain)
    next
      case 2 with ks show ?thesis using safe_plain by blast
    next
      case 3 with v show ?thesis using safe_plain by blast
    qed
  qed
  have ins_ne: "ins \<noteq> []" by (simp add: ins_def)
  have hd_ins: "hd ins = hd sep" using sepc by (auto simp: ins_def)
  have bu: "before CHR ''#'' u = b @ before CHR ''#'' t"
    using bh by (simp add: u before_append_notin)
  have du: "dropWhile (\<lambda>c. c \<noteq> CHR ''#'') u = dropWhile (\<lambda>c. c \<noteq> CHR ''#'') t"
    unfolding u using bh by (induction b) auto
  have u': "add_query_param u k v = b @ t'"
    by (simp add: add_query_param_def bu du t'_def ins_def sep_def)
  text \<open>Whether the URL has a query already.\<close>
  have hasq: "CHR ''?'' \<in> set (before CHR ''#'' u) \<longleftrightarrow> t \<noteq> [] \<and> hd t = CHR ''?''"
    using t bq by (cases t) (auto simp: bu before_Cons)
  have bt_nil: "before CHR ''#'' t = []" if "\<not> (t \<noteq> [] \<and> hd t = CHR ''?'')"
    using that t by (cases t) (auto simp: before_Cons)
  have hdt': "t' \<noteq> [] \<and> hd t' = CHR ''?''"
  proof (cases "t \<noteq> [] \<and> hd t = CHR ''?''")
    case True
    then have "before CHR ''#'' t \<noteq> []" "hd (before CHR ''#'' t) = CHR ''?''"
      by (cases t; simp add: before_Cons)+
    then show ?thesis by (simp add: t'_def)
  next
    case False
    with hasq have "sep = ''?''" by (simp add: sep_def)
    with bt_nil [OF False] show ?thesis by (simp add: t'_def ins_def)
  qed
  then have t'c: "t' = [] \<or> hd t' \<in> set ''?#''" by simp
  text \<open>The original URL and the new one are stripped.\<close>
  have su': "strip (add_query_param u k v) = add_query_param u k v"
  proof -
    have ne: "b @ t' \<noteq> []" using hdt' by simp
    have "hd (b @ t') \<notin> set whitespace"
    proof (cases b)
      case Nil
      with hdt' show ?thesis by (simp add: whitespace_def)
    next
      case (Cons a b')
      then have "hd (b @ t') = hd u" "u \<noteq> []" by (simp_all add: u)
      with st show ?thesis by (simp add: strip_id_iff)
    qed
    moreover have "last (b @ t') \<notin> set whitespace"
    proof (cases "dropWhile (\<lambda>c. c \<noteq> CHR ''#'') t")
      case Nil
      then have "last (b @ t') = last ins" using ins_ne by (simp add: t'_def)
      with ins_plain ins_ne show ?thesis by (metis last_in_set)
    next
      case (Cons a d)
      then have "t \<noteq> []" by auto
      from Cons have "last t' = last (dropWhile (\<lambda>c. c \<noteq> CHR ''#'') t)" by (simp add: t'_def)
      also have "\<dots> = last t"
        using Cons by (metis before_dropWhile_id last_appendR list.distinct(1))
      also have "\<dots> = last u" using \<open>t \<noteq> []\<close> by (simp add: u)
      finally have "last (b @ t') = last u" using hdt' by simp
      moreover have "u \<noteq> []" using \<open>t \<noteq> []\<close> by (simp add: u)
      ultimately show ?thesis using st by (simp add: strip_id_iff)
    qed
    ultimately have "strip (b @ t') = b @ t'" using ne by (simp only: strip_id_iff) blast
    then show ?thesis by (simp only: u')
  qed
  text \<open>The parts of the two URLs.\<close>
  obtain s n p where h: "head_split b = (s, n, p)" by (cases "head_split b") auto
  have Ft: "F t = X @ Y"
    unfolding X_def Y_def F_def filter_append [symmetric] before_dropWhile_id ..
  have Ft': "F t' = X @ ins @ Y"
    using ins_plain by (simp add: t'_def X_def Y_def F_def filter_id_conv)
  have Xh: "CHR ''#'' \<notin> set X" by (simp add: X_def F_def)
  have Yb: "before CHR ''#'' Y = []"
    unfolding Y_def F_def
    by (simp add: filter_before [symmetric] unsafe_url_bytes_def)
  have insh: "CHR ''#'' \<notin> set ins" using ins_plain by blast
  have q0: "after CHR ''?'' (before CHR ''#'' (F t)) = after CHR ''?'' X"
    using Xh Yb by (simp add: Ft before_append_notin)
  have q1: "after CHR ''?'' (before CHR ''#'' (F t')) = after CHR ''?'' (X @ ins)"
    using Xh Yb insh by (simp add: Ft' before_append_notin)
  have f1: "after CHR ''#'' (F t') = after CHR ''#'' (F t)"
    using Xh insh by (simp add: Ft Ft' after_append_notin)
  define q where "q = after CHR ''?'' X"
  define f where "f = after CHR ''#'' (F t)"
  define pp where "pp = (if s \<in> set uses_params \<and> CHR '';'' \<in> set p then splitparams p else (p, []))"
  have pa0: "urlparse u = (case check_brackets n of Some e \<Rightarrow> Inl e | None \<Rightarrow>
          Inr \<lparr> scheme = s, netloc = n, path = fst pp, params = snd pp, query = q, fragment = f \<rparr>)"
    using urlparse_head_tail [OF b t h]
    unfolding F_def [symmetric] q0 u [symmetric] pp_def [symmetric] q_def f_def .
  have pa1: "urlparse (add_query_param u k v) =
       (case check_brackets n of Some e \<Rightarrow> Inl e | None \<Rightarrow>
          Inr \<lparr> scheme = s, netloc = n, path = fst pp, params = snd pp,
                query = after CHR ''?'' (X @ ins), fragment = f \<rparr>)"
    using urlparse_head_tail [OF b t'c h]
    unfolding F_def [symmetric] q1 f1 u' [symmetric] pp_def [symmetric] f_def .
  text \<open>The two queries.\<close>
  have pq: "parse_qs (after CHR ''?'' (X @ ins)) =
     (case parse_qs q of
        Inl e \<Rightarrow> Inl e
      | Inr d \<Rightarrow> Inr (if v = [] then d else dict_add d (k, v)))"
  proof (cases "t \<noteq> [] \<and> hd t = CHR ''?''")
    case True
    with hasq have sep: "sep = ''&''" by (simp add: sep_def)
    from True have "CHR ''?'' \<in> set (before CHR ''#'' t)" by (cases t) (auto simp: before_Cons)
    then have "CHR ''?'' \<in> set X" by (simp add: X_def F_def unsafe_url_bytes_def)
    then have "after CHR ''?'' (X @ ins) = q @ ''&'' @ k @ ''='' @ v"
      by (simp add: after_append_in q_def ins_def sep)
    then show ?thesis using parse_qs_add(1) [OF ks v] by simp
  next
    case False
    with hasq have sep: "sep = ''?''" by (simp add: sep_def)
    from bt_nil [OF False] have X: "X = []" by (simp add: X_def F_def)
    then have "after CHR ''?'' (X @ ins) = k @ ''='' @ v" by (simp add: ins_def sep after_Cons)
    moreover have "parse_qs q = Inr []" using X by (simp add: q_def parse_qs_def parse_qsl_def)
    ultimately show ?thesis using parse_qs_add(2) [OF ks v] by simp
  qed
  have kr: "k \<notin> set REDIRECT_PARAMS" using k by (rule tracking_name_not_redirect)
  have fr: "first_redirect REDIRECT_PARAMS (dict_add d (k, v)) = first_redirect REDIRECT_PARAMS d" for d
    using kr by (rule first_redirect_dict_add)
  have fl: "filter (\<lambda>(k', vs). lower k' \<notin> set TRACKING_PARAMS) (dict_add d (k, v)) =
            filter (\<lambda>(k', vs). lower k' \<notin> set TRACKING_PARAMS) d" for d
    using k by (simp add: filter_dict_add)
  show ?thesis
  proof (cases "check_brackets n")
    case (Some e)
    then show ?thesis unfolding canonicalise_url_parts st su' pa0 pa1 by simp
  next
    case None
    show ?thesis
    proof (cases "parse_qs q")
      case (Inl e)
      then show ?thesis unfolding canonicalise_url_parts st su' pa0 pa1 using None pq by simp
    next
      case (Inr d)
      then show ?thesis unfolding canonicalise_url_parts st su' pa0 pa1 using None pq
        by (simp add: fr canonical_of_parts_def fl split: option.splits)
    qed
  qed
qed


section \<open>Composing a URL and parsing it again\<close>

subsection \<open>Quoting and unquoting\<close>







lemma quote_char_ne [simp]: "quote_char c \<noteq> []"
  by (simp add: quote_char_def)

lemma quote_plus_eq_Nil [simp]: "quote_plus s = [] \<longleftrightarrow> s = []"
  by (cases s) (simp_all add: quote_plus_def)










subsection \<open>Encoding a dict and parsing it again\<close>























subsection \<open>Parsing a URL that urlunsplit has composed\<close>







subsection \<open>What urlsplit returns\<close>











subsection \<open>Prefixes of the path\<close>








subsection \<open>The canonical URL parses into its own parts\<close>





section \<open>Stability of the hash of a URL\<close>

text \<open>
  A tracking parameter whose value is made of unreserved characters, added at the end of the
  query of a URL that has no whitespace around it, changes neither the canonical URL nor the
  hash. The name of the parameter is compared in lowercase.
\<close>

lemma url_hash_tracking_param:
  assumes "strip u = u" and "lower k \<in> set TRACKING_PARAMS" and "set v \<subseteq> set always_safe"
  shows "url_hash (add_query_param u k v) = url_hash u"
  unfolding url_hash_def by (simp only: canonicalise_url_tracking_param [OF assms])

text \<open>
  A slash added at the end of the path changes neither the canonical URL nor the hash of a
  URL whose last path segment holds no semicolon.
\<close>

lemma url_hash_trailing_slash:
  assumes "strip u = u"
    and "\<And>s n p q f. urlsplit u = Inr (s, n, p, q, f) \<Longrightarrow> CHR '';'' \<notin> set (last_segment p)"
  shows "url_hash (add_trailing_slash u) = url_hash u"
  unfolding url_hash_def by (simp only: canonicalise_url_trailing_slash [OF assms])


section \<open>Canonicalising a canonical URL\<close>


text \<open>
  Two more ways in which a canonical URL is not its own canonical form. The parameters of the
  last path segment are dropped, and a trailing slash hides them from the first pass; and
  whitespace in front of the fragment ends up at the end of the canonical URL, where the
  second pass strips it.
\<close>

lemma canonicalise_url_twice_differs:
  "canonicalise_url ''https://x.com/a;b/'' = Inr ''https://x.com/a;b'' \<and>
   canonicalise_url ''https://x.com/a;b'' = Inr ''https://x.com/a'' \<and>
   canonicalise_url ''https://x.com/a #f'' = Inr ''https://x.com/a '' \<and>
   canonicalise_url ''https://x.com/a '' = Inr ''https://x.com/a''"
  by code_simp



section \<open>Properties of the email parser\<close>

lemma parse_candidates_step:
  "parse_candidates (c # rest) sid now seen jobs =
     (if \<not> candidate_ok c then parse_candidates rest sid now seen jobs
      else (case canonicalise_url (fst (snd (snd c))) of
              Inl e \<Rightarrow> Inl e
            | Inr canon \<Rightarrow>
                (case url_hash canon of
                   Inl e \<Rightarrow> Inl e
                 | Inr h \<Rightarrow>
                     if h \<in> seen then parse_candidates rest sid now seen jobs
                     else parse_candidates rest sid now (insert h seen)
                            (jobs @ [job_of c sid now canon h]))))"
  by (cases c) (auto simp: candidate_ok_def job_of_def split: sum.splits)

lemma parse_candidates_inv:
  assumes "parse_candidates cs sid now seen acc = Inr jobs"
  shows "\<exists>new. jobs = acc @ new \<and>
           distinct (map job_url_hash new) \<and>
           job_url_hash ` set new \<inter> seen = {} \<and>
           (\<forall>j\<in>set new. \<exists>pre c post canon.
               cs = pre @ c # post \<and> candidate_ok c \<and>
               canonicalise_url (fst (snd (snd c))) = Inr canon \<and>
               url_hash canon = Inr (job_url_hash j) \<and>
               j = job_of c sid now canon (job_url_hash j) \<and>
               (\<forall>c'\<in>set pre. candidate_ok c' \<longrightarrow> candidate_hash c' \<noteq> Inr (job_url_hash j))) \<and>
           (\<forall>c\<in>set cs. candidate_ok c \<longrightarrow>
               (\<exists>h. candidate_hash c = Inr h \<and> (h \<in> seen \<or> h \<in> job_url_hash ` set new)))"
  using assms
proof (induction cs arbitrary: seen acc)
  case Nil
  then show ?case by simp
next
  case (Cons c rest)
  show ?case
  proof (cases "candidate_ok c")
    case False
    with Cons.prems have "parse_candidates rest sid now seen acc = Inr jobs"
      by (simp add: parse_candidates_step)
    from Cons.IH [OF this] obtain new where new: "jobs = acc @ new"
      "distinct (map job_url_hash new)" "job_url_hash ` set new \<inter> seen = {}"
      and src: "\<forall>j\<in>set new. \<exists>pre c post canon.
               rest = pre @ c # post \<and> candidate_ok c \<and>
               canonicalise_url (fst (snd (snd c))) = Inr canon \<and>
               url_hash canon = Inr (job_url_hash j) \<and>
               j = job_of c sid now canon (job_url_hash j) \<and>
               (\<forall>c'\<in>set pre. candidate_ok c' \<longrightarrow> candidate_hash c' \<noteq> Inr (job_url_hash j))"
      and cov: "\<forall>c\<in>set rest. candidate_ok c \<longrightarrow>
               (\<exists>h. candidate_hash c = Inr h \<and> (h \<in> seen \<or> h \<in> job_url_hash ` set new))"
      by blast
    have src': "\<exists>pre c' post canon.
               c # rest = pre @ c' # post \<and> candidate_ok c' \<and>
               canonicalise_url (fst (snd (snd c'))) = Inr canon \<and>
               url_hash canon = Inr (job_url_hash j) \<and>
               j = job_of c' sid now canon (job_url_hash j) \<and>
               (\<forall>c''\<in>set pre. candidate_ok c'' \<longrightarrow> candidate_hash c'' \<noteq> Inr (job_url_hash j))"
      if "j \<in> set new" for j
    proof -
      from src that obtain pre c' post canon where
        "rest = pre @ c' # post" "candidate_ok c'"
        "canonicalise_url (fst (snd (snd c'))) = Inr canon"
        "url_hash canon = Inr (job_url_hash j)"
        "j = job_of c' sid now canon (job_url_hash j)"
        "\<forall>c''\<in>set pre. candidate_ok c'' \<longrightarrow> candidate_hash c'' \<noteq> Inr (job_url_hash j)"
        by blast
      with False show ?thesis
        by (intro exI [of _ "c # pre"] exI [of _ c'] exI [of _ post] exI [of _ canon]) simp
    qed
    from new src' cov False show ?thesis by (intro exI [of _ new]) auto
  next
    case True
    with Cons.prems obtain canon h where
      canon: "canonicalise_url (fst (snd (snd c))) = Inr canon" and h: "url_hash canon = Inr h"
      by (auto simp: parse_candidates_step split: sum.splits)
    then have ch: "candidate_hash c = Inr h" by (simp add: candidate_hash_def)
    show ?thesis
    proof (cases "h \<in> seen")
      case seen: True
      with Cons.prems True canon h have "parse_candidates rest sid now seen acc = Inr jobs"
        by (simp add: parse_candidates_step)
      from Cons.IH [OF this] obtain new where new: "jobs = acc @ new"
        "distinct (map job_url_hash new)" "job_url_hash ` set new \<inter> seen = {}"
        and src: "\<forall>j\<in>set new. \<exists>pre c post canon.
               rest = pre @ c # post \<and> candidate_ok c \<and>
               canonicalise_url (fst (snd (snd c))) = Inr canon \<and>
               url_hash canon = Inr (job_url_hash j) \<and>
               j = job_of c sid now canon (job_url_hash j) \<and>
               (\<forall>c'\<in>set pre. candidate_ok c' \<longrightarrow> candidate_hash c' \<noteq> Inr (job_url_hash j))"
        and cov: "\<forall>c\<in>set rest. candidate_ok c \<longrightarrow>
               (\<exists>h. candidate_hash c = Inr h \<and> (h \<in> seen \<or> h \<in> job_url_hash ` set new))"
        by blast
      have src': "\<exists>pre c' post canon.
               c # rest = pre @ c' # post \<and> candidate_ok c' \<and>
               canonicalise_url (fst (snd (snd c'))) = Inr canon \<and>
               url_hash canon = Inr (job_url_hash j) \<and>
               j = job_of c' sid now canon (job_url_hash j) \<and>
               (\<forall>c''\<in>set pre. candidate_ok c'' \<longrightarrow> candidate_hash c'' \<noteq> Inr (job_url_hash j))"
        if "j \<in> set new" for j
      proof -
        from src that obtain pre c' post canon' where p:
          "rest = pre @ c' # post" "candidate_ok c'"
          "canonicalise_url (fst (snd (snd c'))) = Inr canon'"
          "url_hash canon' = Inr (job_url_hash j)"
          "j = job_of c' sid now canon' (job_url_hash j)"
          "\<forall>c''\<in>set pre. candidate_ok c'' \<longrightarrow> candidate_hash c'' \<noteq> Inr (job_url_hash j)"
          by blast
        from that new(3) seen have "job_url_hash j \<noteq> h" by auto
        with p ch show ?thesis
          by (intro exI [of _ "c # pre"] exI [of _ c'] exI [of _ post] exI [of _ canon']) auto
      qed
      from new src' cov seen ch show ?thesis by (intro exI [of _ new]) auto
    next
      case unseen: False
      let ?j = "job_of c sid now canon h"
      have jh: "job_url_hash ?j = h" by (cases c) (simp add: job_of_def)
      from Cons.prems True canon h unseen have
        "parse_candidates rest sid now (insert h seen) (acc @ [?j]) = Inr jobs"
        by (simp add: parse_candidates_step)
      from Cons.IH [OF this] obtain new where new: "jobs = (acc @ [?j]) @ new"
        "distinct (map job_url_hash new)" "job_url_hash ` set new \<inter> insert h seen = {}"
        and src: "\<forall>j\<in>set new. \<exists>pre c post canon.
               rest = pre @ c # post \<and> candidate_ok c \<and>
               canonicalise_url (fst (snd (snd c))) = Inr canon \<and>
               url_hash canon = Inr (job_url_hash j) \<and>
               j = job_of c sid now canon (job_url_hash j) \<and>
               (\<forall>c'\<in>set pre. candidate_ok c' \<longrightarrow> candidate_hash c' \<noteq> Inr (job_url_hash j))"
        and cov: "\<forall>c\<in>set rest. candidate_ok c \<longrightarrow>
               (\<exists>h'. candidate_hash c = Inr h' \<and> (h' \<in> insert h seen \<or> h' \<in> job_url_hash ` set new))"
        by blast
      have src': "\<exists>pre c' post canon.
               c # rest = pre @ c' # post \<and> candidate_ok c' \<and>
               canonicalise_url (fst (snd (snd c'))) = Inr canon \<and>
               url_hash canon = Inr (job_url_hash j) \<and>
               j = job_of c' sid now canon (job_url_hash j) \<and>
               (\<forall>c''\<in>set pre. candidate_ok c'' \<longrightarrow> candidate_hash c'' \<noteq> Inr (job_url_hash j))"
        if "j \<in> set (?j # new)" for j
      proof (cases "j = ?j")
        case True
        with canon h jh \<open>candidate_ok c\<close> show ?thesis
          by (intro exI [of _ "[]"] exI [of _ c] exI [of _ rest] exI [of _ canon]) simp
      next
        case False
        with that have jn: "j \<in> set new" by simp
        from src jn obtain pre c' post canon' where p:
          "rest = pre @ c' # post" "candidate_ok c'"
          "canonicalise_url (fst (snd (snd c'))) = Inr canon'"
          "url_hash canon' = Inr (job_url_hash j)"
          "j = job_of c' sid now canon' (job_url_hash j)"
          "\<forall>c''\<in>set pre. candidate_ok c'' \<longrightarrow> candidate_hash c'' \<noteq> Inr (job_url_hash j)"
          by blast
        from jn new(3) have "job_url_hash j \<noteq> h" by auto
        with p ch show ?thesis
          by (intro exI [of _ "c # pre"] exI [of _ c'] exI [of _ post] exI [of _ canon']) auto
      qed
      have d: "distinct (map job_url_hash (?j # new))"
        using new(2,3) jh by auto
      have dis: "job_url_hash ` set (?j # new) \<inter> seen = {}"
        using new(3) jh unseen by auto
      have cov': "\<forall>c'\<in>set (c # rest). candidate_ok c' \<longrightarrow>
               (\<exists>h'. candidate_hash c' = Inr h' \<and> (h' \<in> seen \<or> h' \<in> job_url_hash ` set (?j # new)))"
        using cov ch jh by auto
      from new(1) d dis src' cov' show ?thesis
        by (intro exI [of _ "?j # new"]) simp
    qed
  qed
qed

text \<open>
  Claim C9. When \<open>parse_email_html\<close> returns a list, the hashes of its jobs are pairwise
  distinct; every job comes from a candidate with a non-empty url and title, and no kept
  candidate before that one in the document has the same hash; and every candidate with a
  non-empty url and title has its hash among the jobs. So among the kept candidates with one
  hash exactly the first is emitted, and the candidates with an empty url or title are dropped.
\<close>

theorem parse_email_html_distinct_hashes:
  assumes "parse_email_html candidates source_email_id now = Inr jobs"
  shows "distinct (map job_url_hash jobs) \<and>
         (\<forall>j\<in>set jobs. \<exists>pre company title url location post.
            candidates = pre @ (company, title, url, location) # post \<and>
            url \<noteq> [] \<and> title \<noteq> [] \<and>
            job_company j = company \<and> job_title j = title \<and> job_location j = location \<and>
            canonicalise_url url = Inr (job_url j) \<and>
            url_hash (job_url j) = Inr (job_url_hash j) \<and>
            (\<forall>c\<in>set pre. candidate_ok c \<longrightarrow> candidate_hash c \<noteq> Inr (job_url_hash j))) \<and>
         (\<forall>c\<in>set candidates. candidate_ok c \<longrightarrow>
            (\<exists>j\<in>set jobs. candidate_hash c = Inr (job_url_hash j)))"
proof -
  from assms have "parse_candidates candidates source_email_id now {} [] = Inr jobs"
    by (simp add: parse_email_html_def)
  from parse_candidates_inv [OF this] have d: "distinct (map job_url_hash jobs)"
    and src: "\<forall>j\<in>set jobs. \<exists>pre c post canon.
               candidates = pre @ c # post \<and> candidate_ok c \<and>
               canonicalise_url (fst (snd (snd c))) = Inr canon \<and>
               url_hash canon = Inr (job_url_hash j) \<and>
               j = job_of c source_email_id now canon (job_url_hash j) \<and>
               (\<forall>c'\<in>set pre. candidate_ok c' \<longrightarrow> candidate_hash c' \<noteq> Inr (job_url_hash j))"
    and cov: "\<forall>c\<in>set candidates. candidate_ok c \<longrightarrow>
               (\<exists>h. candidate_hash c = Inr h \<and> h \<in> job_url_hash ` set jobs)"
    by auto
  have src': "\<exists>pre company title url location post.
            candidates = pre @ (company, title, url, location) # post \<and>
            url \<noteq> [] \<and> title \<noteq> [] \<and>
            job_company j = company \<and> job_title j = title \<and> job_location j = location \<and>
            canonicalise_url url = Inr (job_url j) \<and>
            url_hash (job_url j) = Inr (job_url_hash j) \<and>
            (\<forall>c\<in>set pre. candidate_ok c \<longrightarrow> candidate_hash c \<noteq> Inr (job_url_hash j))"
    if "j \<in> set jobs" for j
  proof -
    from src that obtain pre c post canon where p:
      "candidates = pre @ c # post" "candidate_ok c"
      "canonicalise_url (fst (snd (snd c))) = Inr canon"
      "url_hash canon = Inr (job_url_hash j)"
      "j = job_of c source_email_id now canon (job_url_hash j)"
      "\<forall>c'\<in>set pre. candidate_ok c' \<longrightarrow> candidate_hash c' \<noteq> Inr (job_url_hash j)"
      by blast
    obtain company title url location where c: "c = (company, title, url, location)"
      by (cases c) auto
    from p(5) have f: "job_company j = company" "job_title j = title"
      "job_location j = location" "job_url j = canon"
      by (simp_all add: c job_of_def) (metis ParsedJob.select_convs)+
    from p c f show ?thesis
      by (intro exI [of _ pre] exI [of _ company] exI [of _ title] exI [of _ url]
          exI [of _ location] exI [of _ post]) (simp add: candidate_ok_def)
  qed
  from cov have cov': "\<forall>c\<in>set candidates. candidate_ok c \<longrightarrow>
            (\<exists>j\<in>set jobs. candidate_hash c = Inr (job_url_hash j))"
    by (metis imageE)
  from d src' cov' show ?thesis by blast
qed

theorem parse_email_html_distinct_hashes_witness:
  "parse_email_html example_candidates None 0 = Inr [example_job] \<and>
   distinct (map job_url_hash [example_job])"
proof -
  have e: "parse_email_html example_candidates None 0 = Inr [example_job]"
    by code_simp
  from parse_email_html_distinct_hashes [OF e] e show ?thesis by blast
qed

section \<open>Properties of the README feed\<close>

lemma fetch_rows_step:
  "\<exists>cc'. fetch_rows kws (cells # rest) now cc seen acc = fetch_rows kws rest now cc' seen acc \<or>
         (\<exists>e. fetch_rows kws (cells # rest) now cc seen acc = Inl e) \<or>
         (\<exists>h j. passes_prefilter kws j \<and>
            fetch_rows kws (cells # rest) now cc seen acc =
              fetch_rows kws rest now cc' (insert h seen) (acc @ [j]))"
proof -
  define cc0 where "cc0 =
     (if \<not> cell_has_arrow (cells ! 0)
      then Some (strip_emoji (case cell_link_text (cells ! 0) of
                                Some a \<Rightarrow> a | None \<Rightarrow> cell_text (cells ! 0)))
      else cc)"
  define cc1 where "cc1 = (if length cells < 4 then cc else cc0)"
  define url where "url = or_str (get_apply_url (cells ! 3)) []"
  define role where "role = strip_emoji (cell_text (cells ! 1))"
  define ats where "ats = detect_ats_from_url url"
  define loc where "loc =
     (if strip_emoji (cell_text (cells ! 2)) = [] then None
      else Some (strip_emoji (cell_text (cells ! 2))))"
  define J where "J = (\<lambda>canon h.
     \<lparr> job_company = or_str cc0 [], job_title = role, job_url = canon, job_url_hash = h,
       job_ats_type = ats, job_location = loc, job_source_email_id = None,
       job_discovered_at = now \<rparr>)"
  define skip where "skip \<longleftrightarrow>
     length cells < 4 \<or> or_str cc0 [] = [] \<or> url = [] \<or> role = [] \<or>
     \<not> (\<exists>kw\<in>set kws. str_in kw (lower role)) \<or> ats \<in> SKIPPED_ATS"
  have eq: "fetch_rows kws (cells # rest) now cc seen acc =
     (if skip then fetch_rows kws rest now cc1 seen acc
      else (case canonicalise_url url of
              Inl e \<Rightarrow> Inl e
            | Inr canon \<Rightarrow>
                (case url_hash canon of
                   Inl e \<Rightarrow> Inl e
                 | Inr h \<Rightarrow>
                     if h \<in> seen then fetch_rows kws rest now cc1 seen acc
                     else fetch_rows kws rest now cc1 (insert h seen) (acc @ [J canon h]))))"
    unfolding fetch_rows.simps Let_def cc0_def [symmetric] url_def [symmetric]
      role_def [symmetric] ats_def [symmetric] loc_def [symmetric]
    by (simp add: skip_def cc1_def J_def split: sum.splits)
  have J: "passes_prefilter kws (J canon h)" if "\<not> skip" for canon h
    using that by (simp add: skip_def passes_prefilter_def J_def)
  show ?thesis
  proof (cases skip)
    case True
    with eq show ?thesis by auto
  next
    case False
    show ?thesis
    proof (cases "canonicalise_url url")
      case (Inl e)
      with eq False show ?thesis by auto
    next
      case canon: (Inr canon)
      show ?thesis
      proof (cases "url_hash canon")
        case (Inl e)
        with eq False canon show ?thesis by auto
      next
        case (Inr h)
        show ?thesis
        proof (cases "h \<in> seen")
          case True
          with eq False canon Inr show ?thesis by auto
        next
          case unseen: False
          with eq False canon Inr have
            "fetch_rows kws (cells # rest) now cc seen acc =
             fetch_rows kws rest now cc1 (insert h seen) (acc @ [J canon h])" by simp
          with J [OF False] show ?thesis by blast
        qed
      qed
    qed
  qed
qed

lemma fetch_rows_inv:
  "fetch_rows kws rows now cc seen acc = Inr jobs \<Longrightarrow>
   \<forall>j\<in>set acc. passes_prefilter kws j \<Longrightarrow> \<forall>j\<in>set jobs. passes_prefilter kws j"
proof (induction rows arbitrary: cc seen acc)
  case Nil
  then show ?case by simp
next
  case (Cons cells rest)
  from fetch_rows_step [of kws cells rest now cc seen acc] obtain cc' where
    "fetch_rows kws (cells # rest) now cc seen acc = fetch_rows kws rest now cc' seen acc \<or>
         (\<exists>e. fetch_rows kws (cells # rest) now cc seen acc = Inl e) \<or>
         (\<exists>h j. passes_prefilter kws j \<and>
            fetch_rows kws (cells # rest) now cc seen acc =
              fetch_rows kws rest now cc' (insert h seen) (acc @ [j]))" by blast
  then consider
      (skip) "fetch_rows kws (cells # rest) now cc seen acc = fetch_rows kws rest now cc' seen acc"
    | (err) e where "fetch_rows kws (cells # rest) now cc seen acc = Inl e"
    | (emit) h j where "passes_prefilter kws j"
        "fetch_rows kws (cells # rest) now cc seen acc =
           fetch_rows kws rest now cc' (insert h seen) (acc @ [j])"
    by blast
  then show ?case
  proof cases
    case skip
    with Cons.prems(1) have "fetch_rows kws rest now cc' seen acc = Inr jobs" by simp
    from Cons.IH [OF this Cons.prems(2)] show ?thesis .
  next
    case err
    with Cons.prems(1) show ?thesis by simp
  next
    case emit
    with Cons.prems(1) have r: "fetch_rows kws rest now cc' (insert h seen) (acc @ [j]) = Inr jobs"
      by simp
    have "\<forall>j\<in>set (acc @ [j]). passes_prefilter kws j"
      using Cons.prems(2) emit(1) by simp
    from Cons.IH [OF r this] show ?thesis .
  qed
qed

text \<open>
  Claim C10. Every job that \<open>fetch_github_jobs\<close> emits has a title in which the lowercase of
  some configured title keyword occurs, ignoring case, and an ATS type that is neither
  \<open>workday\<close> nor \<open>taleo\<close>.
\<close>

theorem fetch_github_jobs_prefilter:
  assumes "fetch_github_jobs filter_cfg table now = Inr jobs" and "j \<in> set jobs"
  shows "(\<exists>kw\<in>set (title_keywords filter_cfg). str_in (lower kw) (lower (job_title j))) \<and>
         job_ats_type j \<noteq> ''workday'' \<and> job_ats_type j \<noteq> ''taleo''"
proof (cases table)
  case None
  with assms show ?thesis by (simp add: fetch_github_jobs_def)
next
  case (Some rows)
  with assms(1) have
    "fetch_rows (map lower (title_keywords filter_cfg)) rows now None {} [] = Inr jobs"
    by (simp add: fetch_github_jobs_def)
  from fetch_rows_inv [OF this] assms(2)
  have "passes_prefilter (map lower (title_keywords filter_cfg)) j" by simp
  then show ?thesis by (auto simp: passes_prefilter_def SKIPPED_ATS_def)
qed

theorem fetch_github_jobs_prefilter_witness:
  "fetch_github_jobs default_FilterConfig (Some example_table) 0 = Inr [example_job] \<and>
   example_job \<in> set [example_job] \<and>
   (\<exists>kw\<in>set (title_keywords default_FilterConfig).
      str_in (lower kw) (lower (job_title example_job))) \<and>
   job_ats_type example_job \<noteq> ''workday'' \<and> job_ats_type example_job \<noteq> ''taleo''"
proof -
  have e: "fetch_github_jobs default_FilterConfig (Some example_table) 0 = Inr [example_job]"
    by code_simp
  have m: "example_job \<in> set [example_job]" by simp
  from fetch_github_jobs_prefilter [OF e m] e m show ?thesis by blast
qed

section \<open>Properties of the job store\<close>

lemma find_hash_None:
  "find (\<lambda>jp. jp_url_hash jp = h) rows = None \<longleftrightarrow> h \<notin> jp_url_hash ` set rows"
  by (auto simp: find_None_iff)

lemma store_loop_distinct:
  "distinct (map jp_url_hash (job_posts s)) \<Longrightarrow>
   distinct (map jp_url_hash (job_posts (snd (store_loop jobs sid dry n s))))"
proof (induction jobs arbitrary: n s)
  case Nil
  then show ?case by simp
next
  case (Cons job rest)
  show ?case
  proof (cases "find (\<lambda>jp. jp_url_hash jp = job_url_hash job) (job_posts s)")
    case (Some existing)
    then show ?thesis using Cons by simp
  next
    case None
    then have "job_url_hash job \<notin> jp_url_hash ` set (job_posts s)"
      by (simp add: find_hash_None)
    with Cons.prems have
      "distinct (map jp_url_hash (job_posts (s\<lparr>job_posts := job_posts s @ [r\<lparr>jp_url_hash := job_url_hash job\<rparr>]\<rparr>)))" for r
      by simp
    with None Cons.IH show ?thesis by (cases dry) (simp_all add: Cons.prems)
  qed
qed

lemma store_jobs_distinct:
  "distinct (map jp_url_hash (job_posts s)) \<Longrightarrow>
   distinct (map jp_url_hash (job_posts (snd (store_jobs s jobs sid dry))))"
  using store_loop_distinct [of s jobs sid dry 0]
  by (cases "store_loop jobs sid dry 0 s") (simp add: store_jobs_def)

lemma store_all_distinct:
  "distinct (map jp_url_hash (job_posts s)) \<Longrightarrow>
   distinct (map jp_url_hash (job_posts (store_all s calls)))"
  by (induction s calls rule: store_all.induct) (simp_all add: store_jobs_distinct)

lemma store_jobs_existing:
  "job_url_hash job \<in> jp_url_hash ` set (job_posts s) \<Longrightarrow>
   store_jobs s [job] sid dry = ((1, 0), s)"
  by (cases "find (\<lambda>jp. jp_url_hash jp = job_url_hash job) (job_posts s)")
     (simp_all add: store_jobs_def find_hash_None)

lemma store_jobs_present:
  "job_url_hash job \<in> jp_url_hash ` set (job_posts (snd (store_jobs s [job] sid False)))"
proof (cases "find (\<lambda>jp. jp_url_hash jp = job_url_hash job) (job_posts s)")
  case None
  then show ?thesis by (simp add: store_jobs_def)
next
  case (Some existing)
  then have "job_url_hash job \<in> jp_url_hash ` set (job_posts s)"
    using find_hash_None [of "job_url_hash job" "job_posts s"] by simp
  then show ?thesis by (simp add: store_jobs_existing)
qed

lemma one_row_per_key:
  "distinct (map f xs) \<Longrightarrow> k \<in> f ` set xs \<Longrightarrow> length (filter (\<lambda>x. f x = k) xs) = 1"
proof (induction xs)
  case Nil
  then show ?case by simp
next
  case (Cons x xs)
  show ?case
  proof (cases "f x = k")
    case True
    have "f y \<noteq> k" if "y \<in> set xs" for y
      using that Cons.prems(1) True by (metis distinct.simps(2) imageI list.simps(9) set_map)
    then have "filter (\<lambda>x. f x = k) xs = []"
      by (simp add: filter_empty_conv)
    with True show ?thesis by simp
  next
    case False
    with Cons show ?thesis by auto
  qed
qed

text \<open>
  Claim C4. In a store with at most one row per \<open>url_hash\<close>, in particular the empty one,
  every sequence of calls of \<open>_store_jobs\<close> leaves at most one row per \<open>url_hash\<close>; the
  insertion of a job whose hash is already stored changes nothing and reports no new job;
  and after two insertions of the same job the store has exactly one row with its hash.
\<close>

theorem store_one_row_per_hash:
  assumes "distinct (map jp_url_hash (job_posts s))"
  shows "distinct (map jp_url_hash (job_posts (store_all s calls))) \<and>
         ((\<exists>jp\<in>set (job_posts s). jp_url_hash jp = job_url_hash job) \<longrightarrow>
            store_jobs s [job] sid dry = ((1, 0), s)) \<and>
         length (filter (\<lambda>jp. jp_url_hash jp = job_url_hash job)
                   (job_posts (store_all s [([job], sid, False), ([job], sid', False)]))) = 1"
proof (intro conjI impI)
  show "distinct (map jp_url_hash (job_posts (store_all s calls)))"
    using assms by (rule store_all_distinct)
next
  assume "\<exists>jp\<in>set (job_posts s). jp_url_hash jp = job_url_hash job"
  then have "job_url_hash job \<in> jp_url_hash ` set (job_posts s)" by force
  then show "store_jobs s [job] sid dry = ((1, 0), s)" by (rule store_jobs_existing)
next
  let ?s1 = "snd (store_jobs s [job] sid False)"
  have d: "distinct (map jp_url_hash (job_posts ?s1))"
    using assms by (rule store_jobs_distinct)
  have p: "job_url_hash job \<in> jp_url_hash ` set (job_posts ?s1)"
    by (rule store_jobs_present)
  have "store_all s [([job], sid, False), ([job], sid', False)] = ?s1"
    using store_jobs_existing [OF p, of sid' False] by simp
  with one_row_per_key [OF d p] show
    "length (filter (\<lambda>jp. jp_url_hash jp = job_url_hash job)
       (job_posts (store_all s [([job], sid, False), ([job], sid', False)]))) = 1"
    by simp
qed

theorem store_one_row_per_hash_witness:
  "distinct (map jp_url_hash (job_posts example_store)) \<and>
   (\<exists>jp\<in>set (job_posts example_store). jp_url_hash jp = job_url_hash example_job) \<and>
   distinct (map jp_url_hash
     (job_posts (store_all example_store
        [([example_job2, example_job], None, False), ([example_job], None, False)]))) \<and>
   store_jobs example_store [example_job] None False = ((1, 0), example_store) \<and>
   length (filter (\<lambda>jp. jp_url_hash jp = job_url_hash example_job)
             (job_posts (store_all example_store
                [([example_job], None, False), ([example_job], None, False)]))) = 1"
proof -
  have d: "distinct (map jp_url_hash (job_posts example_store))"
    by code_simp
  have e: "\<exists>jp\<in>set (job_posts example_store). jp_url_hash jp = job_url_hash example_job"
    by code_simp
  from store_one_row_per_hash [OF d, of
      "[([example_job2, example_job], None, False), ([example_job], None, False)]"
      example_job None False None] d e
  show ?thesis by blast
qed

section \<open>Properties of the queue command\<close>

lemma score_loop_result:
  assumes "distinct is" "\<forall>i\<in>set is. i < length rows"
  shows "score_loop cfg is rows tq fl =
           (map (\<lambda>k. if k \<in> set is
                       then (rows ! k)\<lparr> jp_fit_score := score (score_post cfg (rows ! k)),
                                         jp_fit_reason := reason (score_post cfg (rows ! k)) \<rparr>
                       else rows ! k) [0..<length rows],
            tq @ filter (\<lambda>i. should_queue (score_post cfg (rows ! i))) is,
            fl @ filter (\<lambda>i. \<not> should_queue (score_post cfg (rows ! i))) is)"
  using assms
proof (induction "is" arbitrary: rows tq fl)
  case Nil
  then show ?case by (simp add: map_nth)
next
  case (Cons i rest)
  let ?jp1 = "(rows ! i)\<lparr> jp_fit_score := score (score_post cfg (rows ! i)),
                            jp_fit_reason := reason (score_post cfg (rows ! i)) \<rparr>"
  let ?rows1 = "rows[i := ?jp1]"
  from Cons.prems have i: "i < length rows" "i \<notin> set rest" "distinct rest"
    and rest: "\<forall>k\<in>set rest. k < length ?rows1" by auto
  have same: "?rows1 ! k = rows ! k" if "k \<in> set rest" for k
    using that i by (metis nth_list_update_neq)
  have f1: "filter (\<lambda>k. should_queue (score_post cfg (?rows1 ! k))) rest =
            filter (\<lambda>k. should_queue (score_post cfg (rows ! k))) rest"
    by (rule filter_cong) (simp_all add: same)
  have f2: "filter (\<lambda>k. \<not> should_queue (score_post cfg (?rows1 ! k))) rest =
            filter (\<lambda>k. \<not> should_queue (score_post cfg (rows ! k))) rest"
    by (rule filter_cong) (simp_all add: same)
  have m: "map (\<lambda>k. if k \<in> set rest
                       then (?rows1 ! k)\<lparr> jp_fit_score := score (score_post cfg (?rows1 ! k)),
                                         jp_fit_reason := reason (score_post cfg (?rows1 ! k)) \<rparr>
                       else ?rows1 ! k) [0..<length ?rows1] =
           map (\<lambda>k. if k \<in> set (i # rest)
                       then (rows ! k)\<lparr> jp_fit_score := score (score_post cfg (rows ! k)),
                                         jp_fit_reason := reason (score_post cfg (rows ! k)) \<rparr>
                       else rows ! k) [0..<length rows]"
    using i by (auto simp: same nth_list_update)
  show ?case
    using Cons.IH [OF i(3) rest, unfolded f1 f2 m] 
    by (simp add: Let_def)
qed

lemma queue_loop_rows:
  assumes "\<forall>i\<in>set tq. i < length (job_posts s)"
  shows "job_posts (snd (queue_loop tq now n s)) =
           map (\<lambda>k. if k \<in> set tq then (job_posts s ! k)\<lparr> jp_status := queued \<rparr>
                     else job_posts s ! k) [0..<length (job_posts s)]"
  using assms
proof (induction tq arbitrary: n s)
  case Nil
  then show ?case by (simp add: map_nth)
next
  case (Cons i rest)
  let ?rows1 = "(job_posts s)[i := (job_posts s ! i)\<lparr> jp_status := queued \<rparr>]"
  let ?s1 = "s\<lparr> job_posts := ?rows1 \<rparr>"
  from Cons.prems have i: "i < length (job_posts s)"
    and rest: "\<forall>k\<in>set rest. k < length (job_posts ?s1)" by auto
  have m: "map (\<lambda>k. if k \<in> set rest then (?rows1 ! k)\<lparr> jp_status := queued \<rparr> else ?rows1 ! k)
             [0..<length ?rows1] =
           map (\<lambda>k. if k \<in> set (i # rest) then (job_posts s ! k)\<lparr> jp_status := queued \<rparr>
                     else job_posts s ! k) [0..<length (job_posts s)]"
    using i by (auto simp: nth_list_update)
  have a: "job_posts (snd (queue_loop rest now n' (?s1\<lparr> applications := apps \<rparr>))) =
           map (\<lambda>k. if k \<in> set (i # rest) then (job_posts s ! k)\<lparr> jp_status := queued \<rparr>
                     else job_posts s ! k) [0..<length (job_posts s)]" for n' apps
  proof -
    let ?s2 = "?s1\<lparr> applications := apps \<rparr>"
    have r2: "\<forall>k\<in>set rest. k < length (job_posts ?s2)" using rest by simp
    from Cons.IH [OF r2, of n'] have
      "job_posts (snd (queue_loop rest now n' ?s2)) =
       map (\<lambda>k. if k \<in> set rest then (?rows1 ! k)\<lparr> jp_status := queued \<rparr> else ?rows1 ! k)
         [0..<length ?rows1]" by simp
    then show ?thesis by (simp only: m)
  qed
  show ?case
    using a [of n "applications s"] a [of "n + 1"]
    by (simp add: Let_def split: option.splits)
qed

lemma filter_loop_rows:
  assumes "\<forall>i\<in>set fl. i < length rows"
  shows "filter_loop fl rows =
           map (\<lambda>k. if k \<in> set fl then (rows ! k)\<lparr> jp_status := filtered_out \<rparr> else rows ! k)
             [0..<length rows]"
  using assms
proof (induction fl arbitrary: rows)
  case Nil
  then show ?case by (simp add: map_nth)
next
  case (Cons i rest)
  let ?rows1 = "rows[i := (rows ! i)\<lparr> jp_status := filtered_out \<rparr>]"
  from Cons.prems have i: "i < length rows" and rest: "\<forall>k\<in>set rest. k < length ?rows1"
    by auto
  have "map (\<lambda>k. if k \<in> set rest then (?rows1 ! k)\<lparr> jp_status := filtered_out \<rparr> else ?rows1 ! k)
             [0..<length ?rows1] =
        map (\<lambda>k. if k \<in> set (i # rest) then (rows ! k)\<lparr> jp_status := filtered_out \<rparr>
                  else rows ! k) [0..<length rows]"
    using i by (auto simp: nth_list_update)
  with Cons.IH [OF rest] show ?case by simp
qed


lemma queue_loop_length:
  "\<forall>i\<in>set tq. i < length (job_posts s) \<Longrightarrow>
   length (job_posts (snd (queue_loop tq now n s))) = length (job_posts s)"
  by (simp add: queue_loop_rows)

text \<open>
  Claim C2 as stated fails: the first state that the command commits holds the fit score and
  the fit reason of a job whose status is still \<open>discovered\<close>.
\<close>

theorem queue_score_without_status:
  "jp_fit_score (job_posts (queue default_FilterConfig None True True 0 example_store ! 0) ! 0)
     = 60 / 100 \<and>
   jp_fit_reason (job_posts (queue default_FilterConfig None True True 0 example_store ! 0) ! 0)
     = ''title matches: intern, software engineer; preferred ATS (ashby +20%)'' \<and>
   jp_status (job_posts (queue default_FilterConfig None True True 0 example_store ! 0) ! 0)
     = discovered"
  by code_simp

text \<open>
  Claim C2, as amended. For a job that is \<open>discovered\<close> when the command starts, the first
  commit writes its fit score and fit reason together and leaves every other field, the
  status too, as it was. A second commit follows exactly when some discovered job passes the
  threshold and the user confirms (or \<open>--yes\<close> is given); it sets the status to \<open>queued\<close>
  or \<open>filtered_out\<close> by the queue decision and keeps the score and the reason.
\<close>

theorem queue_score_then_status:
  fixes cfg0 :: FilterConfig
  defines "cfg \<equiv> with_min_score cfg0"
  assumes i: "i < length (job_posts s)" and d: "jp_status (job_posts s ! i) = discovered"
  shows "\<exists>s1 rest.
           queue cfg0 m yes confirmed now s = s1 # rest \<and>
           job_posts s1 ! i =
             (job_posts s ! i)\<lparr> jp_fit_score := score (score_post (cfg m) (job_posts s ! i)),
                                  jp_fit_reason := reason (score_post (cfg m) (job_posts s ! i)) \<rparr> \<and>
           (rest \<noteq> [] \<longleftrightarrow>
              (yes \<or> confirmed) \<and>
              (\<exists>k<length (job_posts s). jp_status (job_posts s ! k) = discovered \<and>
                 should_queue (score_post (cfg m) (job_posts s ! k)))) \<and>
           (\<forall>s2\<in>set rest.
              job_posts s2 ! i =
                (job_posts s ! i)\<lparr> jp_fit_score := score (score_post (cfg m) (job_posts s ! i)),
                                     jp_fit_reason := reason (score_post (cfg m) (job_posts s ! i)),
                                     jp_status := (if should_queue (score_post (cfg m) (job_posts s ! i))
                                                   then queued else filtered_out) \<rparr>)"
proof -
  define rows where "rows = job_posts s"
  define c where "c = cfg m"
  define D where "D = filter (\<lambda>i. jp_status (rows ! i) = discovered) [0..<length rows]"
  define upd where "upd = (\<lambda>jp. jp\<lparr> jp_fit_score := score (score_post c jp),
                         jp_fit_reason := reason (score_post c jp) \<rparr>)"
  define rows1 where "rows1 = map (\<lambda>k. if k \<in> set D then upd (rows ! k) else rows ! k) [0..<length rows]"
  define tq where "tq = filter (\<lambda>i. should_queue (score_post c (rows ! i))) D"
  define fl where "fl = filter (\<lambda>i. \<not> should_queue (score_post c (rows ! i))) D"
  define s1 where "s1 = s\<lparr> job_posts := rows1 \<rparr>"
  define s2 where "s2 = snd (queue_loop tq now 0 s1)"
  define s3 where "s3 = s2\<lparr> job_posts := filter_loop fl (job_posts s2) \<rparr>"
  have iD: "i \<in> set D" and il: "i < length rows" using i d by (simp_all add: D_def rows_def)
  have Dl: "\<forall>k\<in>set D. k < length rows" and Dd: "distinct D" by (simp_all add: D_def)
  have Dne: "D \<noteq> []" using iD by auto
  have sl: "score_loop c D rows [] [] = (rows1, tq, fl)"
    using score_loop_result [OF Dd Dl, of c "[]" "[]"]
    by (simp add: rows1_def tq_def fl_def upd_def)
  have len1: "length rows1 = length rows" by (simp add: rows1_def)
  have tq_bound: "\<forall>k\<in>set tq. k < length (job_posts s1)"
    using Dl by (simp add: tq_def s1_def len1)
  have rows2: "job_posts s2 =
      map (\<lambda>k. if k \<in> set tq then (rows1 ! k)\<lparr> jp_status := queued \<rparr> else rows1 ! k)
        [0..<length rows]"
    using queue_loop_rows [OF tq_bound, of now 0] by (simp add: s2_def s1_def len1)
  have len2: "length (job_posts s2) = length rows" by (simp add: rows2)
  have fl_bound: "\<forall>k\<in>set fl. k < length (job_posts s2)"
    using Dl by (simp add: fl_def len2)
  have rows3: "job_posts s3 =
      map (\<lambda>k. if k \<in> set fl then (job_posts s2 ! k)\<lparr> jp_status := filtered_out \<rparr>
                else job_posts s2 ! k) [0..<length rows]"
    using filter_loop_rows [OF fl_bound] by (simp add: s3_def len2)
  have r1: "job_posts s1 ! i = upd (rows ! i)"
    using il iD by (simp add: s1_def rows1_def)
  have itq: "i \<in> set tq \<longleftrightarrow> should_queue (score_post c (rows ! i))"
    using iD by (simp add: tq_def)
  have ifl: "i \<in> set fl \<longleftrightarrow> \<not> should_queue (score_post c (rows ! i))"
    using iD by (simp add: fl_def)
  have r2: "job_posts s2 ! i =
      (if should_queue (score_post c (rows ! i)) then (upd (rows ! i))\<lparr> jp_status := queued \<rparr>
       else upd (rows ! i))"
    using il r1 itq by (simp add: rows2 s1_def)
  have r3: "job_posts s3 ! i =
      (upd (rows ! i))\<lparr> jp_status := (if should_queue (score_post c (rows ! i))
                                       then queued else filtered_out) \<rparr>"
    using il ifl r2 by (simp add: rows3)
  have tq_ne: "tq \<noteq> [] \<longleftrightarrow>
      (\<exists>k<length rows. jp_status (rows ! k) = discovered \<and>
         should_queue (score_post c (rows ! k)))"
    by (auto simp: tq_def D_def filter_empty_conv)
  have q: "queue cfg0 m yes confirmed now s =
      (if tq = [] then [s1] else if \<not> yes \<and> \<not> confirmed then [s1] else [s1, s3])"
  proof -
    have "queue cfg0 m yes confirmed now s =
      (if D = [] then []
         else
           (let (rows1, to_queue, filtered) = score_loop c D rows [] [];
                s1 = s\<lparr> job_posts := rows1 \<rparr>
            in if to_queue = [] then [s1]
               else if \<not> yes \<and> \<not> confirmed then [s1]
               else
                 (let (queued_count, s2) = queue_loop to_queue now 0 s1;
                      s3 = s2\<lparr> job_posts := filter_loop filtered (job_posts s2) \<rparr>
                  in [s1, s3])))"
      unfolding queue_def Let_def c_def cfg_def D_def rows_def by (rule refl)
    also have "\<dots> = (if tq = [] then [s1] else if \<not> yes \<and> \<not> confirmed then [s1] else [s1, s3])"
      unfolding sl using Dne
      by (simp add: s1_def s2_def s3_def split_beta Let_def)
    finally show ?thesis .
  qed
  have u1: "job_posts s1 ! i = (job_posts s ! i)\<lparr> jp_fit_score := score (score_post (cfg m) (job_posts s ! i)),
                                  jp_fit_reason := reason (score_post (cfg m) (job_posts s ! i)) \<rparr>"
    using r1 by (simp add: upd_def rows_def c_def)
  have u3: "job_posts s3 ! i =
                (job_posts s ! i)\<lparr> jp_fit_score := score (score_post (cfg m) (job_posts s ! i)),
                                     jp_fit_reason := reason (score_post (cfg m) (job_posts s ! i)),
                                     jp_status := (if should_queue (score_post (cfg m) (job_posts s ! i))
                                                   then queued else filtered_out) \<rparr>"
    using r3 by (simp add: upd_def rows_def c_def)
  have ne: "tq \<noteq> [] \<longleftrightarrow> (\<exists>k<length (job_posts s). jp_status (job_posts s ! k) = discovered \<and>
                 should_queue (score_post (cfg m) (job_posts s ! k)))"
    using tq_ne by (simp add: rows_def c_def)
  show ?thesis
  proof (cases "tq = [] \<or> (\<not> yes \<and> \<not> confirmed)")
    case True
    then have "queue cfg0 m yes confirmed now s = [s1]" using q by auto
    with u1 True ne show ?thesis by auto
  next
    case False
    then have "queue cfg0 m yes confirmed now s = [s1, s3]" using q by auto
    with u1 u3 False ne show ?thesis by auto
  qed
qed

theorem queue_score_then_status_witness:
  "0 < length (job_posts example_store) \<and>
   jp_status (job_posts example_store ! 0) = discovered \<and>
   (\<exists>s1 s2.
      queue default_FilterConfig None True False 7 example_store = [s1, s2] \<and>
      jp_fit_score (job_posts s1 ! 0) = 60 / 100 \<and>
      jp_status (job_posts s1 ! 0) = discovered \<and>
      jp_fit_score (job_posts s2 ! 0) = 60 / 100 \<and>
      jp_status (job_posts s2 ! 0) = queued)"
proof -
  have i: "0 < length (job_posts example_store)"
    by code_simp
  have d: "jp_status (job_posts example_store ! 0) = discovered"
    by code_simp
  have r: "score_post (with_min_score default_FilterConfig None) (job_posts example_store ! 0) =
           \<lparr> score = 60 / 100,
             reason = ''title matches: intern, software engineer; preferred ATS (ashby +20%)'',
             should_queue = True \<rparr>"
    by code_simp
  have l: "length (queue default_FilterConfig None True False 7 example_store) = 2"
    by code_simp
  from queue_score_then_status [OF i d, of default_FilterConfig None True False 7]
  obtain s1 rest where q: "queue default_FilterConfig None True False 7 example_store = s1 # rest"
    and a: "job_posts s1 ! 0 =
              (job_posts example_store ! 0)\<lparr> jp_fit_score := 60 / 100,
                 jp_fit_reason := ''title matches: intern, software engineer; preferred ATS (ashby +20%)'' \<rparr>"
    and b: "\<forall>s2\<in>set rest. job_posts s2 ! 0 =
              (job_posts example_store ! 0)\<lparr> jp_fit_score := 60 / 100,
                 jp_fit_reason := ''title matches: intern, software engineer; preferred ATS (ashby +20%)'',
                 jp_status := queued \<rparr>"
    unfolding r by auto
  from l q obtain s2 where rest: "rest = [s2]"
    by (cases rest) auto
  from a b rest d have
    "jp_fit_score (job_posts s1 ! 0) = 60 / 100 \<and> jp_status (job_posts s1 ! 0) = discovered \<and>
     jp_fit_score (job_posts s2 ! 0) = 60 / 100 \<and> jp_status (job_posts s2 ! 0) = queued"
    by simp
  with q rest i d show ?thesis by blast
qed

end
